theory Spec2Isabelle
  imports Complex_Main
begin
section \<open>String helpers used by the session pool\<close>

text \<open>
  \<open>String.prototype.replaceAll\<close> with a string pattern: every non-overlapping occurrence,
  scanned left to right, is replaced. The replacement is taken literally (the pool only
  substitutes the zero-padded instance number and the caller's context). An empty pattern
  matches between all characters, as in JavaScript.
\<close>

function replaceAll :: "string \<Rightarrow> string \<Rightarrow> string \<Rightarrow> string" where
  "replaceAll pat rep [] = (if pat = [] then rep else [])"
| "replaceAll pat rep (c # cs) =
     (if pat = [] then rep @ c # replaceAll pat rep cs
      else if take (length pat) (c # cs) = pat
           then rep @ replaceAll pat rep (drop (length pat) (c # cs))
           else c # replaceAll pat rep cs)"
  by pat_completeness auto
termination
  by (relation "measure (\<lambda>(pat, rep, s). length s)") auto

text \<open>\<open>Number.prototype.toString\<close> on a non-negative integer, and \<open>padStart\<close>.\<close>

fun toString :: "nat \<Rightarrow> string" where
  "toString n =
     (if n < 10 then [''0123456789'' ! n]
      else toString (n div 10) @ [''0123456789'' ! (n mod 10)])"

declare toString.simps [simp del]

definition padStart :: "nat \<Rightarrow> char \<Rightarrow> string \<Rightarrow> string" where
  "padStart targetLength c s = replicate (targetLength - length s) c @ s"

section \<open>BrowserPool: the session pool\<close>

text \<open>
  \<open>interface BrowserProfile\<close>. The browser handle is an opaque identifier, \<open>usedSince\<close> is
  the allocation time in milliseconds, and the optional \<open>protected\<close> field is \<open>None\<close> while
  it has never been assigned. Objects are modelled by value; a slot's identity is its
  instance number, which is what \<open>returnBrowserProfile\<close> compares.
\<close>

record BrowserProfile =
  profile :: string
  pid :: string
  instanceNo :: nat
  browser :: "nat option"
  usedSince :: "int option"
  protected :: "bool option"

record BrowserConfig =
  userDataPath :: string
  poolSize :: int

record BrowserPool =
  available :: "BrowserProfile list"
  used :: "BrowserProfile list"

text \<open>What the pool writes to the log, and the effects it has outside its two lists.\<close>

datatype PoolEvent =
    LogNoAvailable
  | LogAllocated string nat
  | PurgePidFile string
  | LogReturned nat nat
  | LogUnknownProfile nat
  | LogProtectedSkip nat
  | LogWithinLimit nat
  | ManageTabs nat
  | CloseBrowser nat
  | WaitMs nat
  | KillIfRunning string
  | LogCloseError nat

definition getProfilePath :: "BrowserConfig \<Rightarrow> string \<Rightarrow> string" where
  "getProfilePath cfg instanceNum = replaceAll ''{__instance__}'' instanceNum (userDataPath cfg)"

definition getPidFilePath :: "BrowserConfig \<Rightarrow> string \<Rightarrow> string" where
  "getPidFilePath cfg instanceNum = getProfilePath cfg instanceNum @ ''/pid.txt''"

definition newProfile :: "BrowserConfig \<Rightarrow> nat \<Rightarrow> BrowserProfile" where
  "newProfile cfg i =
     (let instanceNum = padStart 2 (CHR ''0'') (toString i)
      in \<lparr> profile = getProfilePath cfg instanceNum,
           pid = getPidFilePath cfg instanceNum,
           instanceNo = i,
           browser = None,
           usedSince = None,
           protected = None \<rparr>)"

text \<open>\<open>initPool\<close>: \<open>poolSize || 3\<close> slots, numbered from 1, all available.\<close>

definition effectivePoolSize :: "BrowserConfig \<Rightarrow> int" where
  "effectivePoolSize cfg = (if poolSize cfg = 0 then 3 else poolSize cfg)"

definition initPool :: "BrowserConfig \<Rightarrow> BrowserPool" where
  "initPool cfg =
     \<lparr> available = map (newProfile cfg) [1 ..< Suc (nat (effectivePoolSize cfg))],
       used = [] \<rparr>"

text \<open>
  \<open>getBrowserProfile(context)\<close> at clock reading \<open>now\<close>: the allocated slot (or \<open>None\<close> for
  \<open>null\<close>), the pool afterwards and the log.
\<close>

definition getBrowserProfile ::
  "int \<Rightarrow> string \<Rightarrow> BrowserPool \<Rightarrow> BrowserProfile option \<times> BrowserPool \<times> PoolEvent list" where
  "getBrowserProfile now context pool =
     (case available pool of
        [] \<Rightarrow> (None, pool, [LogNoAvailable])
      | p # rest \<Rightarrow>
          (let p' = p\<lparr> profile := replaceAll ''{__context__}'' context (profile p),
                      pid := replaceAll ''{__context__}'' context (pid p),
                      usedSince := Some now \<rparr>
           in (Some p',
               \<lparr> available = rest, used = used pool @ [p'] \<rparr>,
               [LogAllocated (profile p') (length rest)])))"

text \<open>\<open>Array.prototype.findIndex\<close>, with \<open>None\<close> for \<open>-1\<close>, and \<open>splice(index, 1)\<close>.\<close>

fun findIndex :: "('a \<Rightarrow> bool) \<Rightarrow> 'a list \<Rightarrow> nat option" where
  "findIndex P [] = None"
| "findIndex P (x # xs) =
     (if P x then Some 0 else map_option Suc (findIndex P xs))"

definition spliceOne :: "nat \<Rightarrow> 'a list \<Rightarrow> 'a list" where
  "spliceOne index xs = take index xs @ drop (Suc index) xs"

text \<open>
  \<open>returnBrowserProfile(profile, deleteFile)\<close>. The PID file is removed when it exists
  (\<open>PurgePidFile\<close>; a failing unlink is only logged). The object handed in is the one that
  is reset and pushed onto the available list; its \<open>protected\<close> field is not assigned.
\<close>

definition returnBrowserProfile ::
  "BrowserConfig \<Rightarrow> BrowserPool \<Rightarrow> BrowserProfile \<Rightarrow> bool \<Rightarrow> BrowserPool \<times> PoolEvent list" where
  "returnBrowserProfile cfg pool p deleteFile =
     (case findIndex (\<lambda>q. instanceNo q = instanceNo p) (used pool) of
        Some index \<Rightarrow>
          (let used' = spliceOne index (used pool);
               instanceNum = padStart 2 (CHR ''0'') (toString (instanceNo p));
               p' = p\<lparr> profile := getProfilePath cfg instanceNum,
                       pid := getPidFilePath cfg instanceNum,
                       browser := None,
                       usedSince := None \<rparr>
           in (\<lparr> available = available pool @ [p'], used = used' \<rparr>,
               (if deleteFile then [PurgePidFile (pid p)] else [])
                 @ [LogReturned (instanceNo p) (Suc (length (available pool)))]))
      | None \<Rightarrow> (pool, [LogUnknownProfile (instanceNo p)]))"

text \<open>\<open>getProfileAgeInSeconds\<close> at clock reading \<open>now\<close> (milliseconds).\<close>

definition getProfileAgeInSeconds :: "int \<Rightarrow> BrowserProfile \<Rightarrow> int" where
  "getProfileAgeInSeconds now p =
     (case usedSince p of None \<Rightarrow> 0 | Some since \<Rightarrow> (now - since) div 1000)"


text \<open>
  \<open>forceCloseBrowsersOlderThan(maxTimeSeconds)\<close>. The environment of one sweep: the clock
  reading taken when the \<open>k\<close>-th slot of the snapshot is examined, and whether
  \<open>browser.close()\<close> rejects for a given browser handle. Errors of \<open>manageBrowserTabs\<close>, of
  reading the PID file and of \<open>process.kill\<close> are caught where they occur and do not change
  the control flow; a rejected \<open>close()\<close> passes through \<open>try \<dots> finally\<close> to the outer
  \<open>catch\<close>, which logs it and goes on to the next slot.
\<close>

record SweepEnv =
  clockAt :: "nat \<Rightarrow> int"
  closeRaises :: "nat \<Rightarrow> bool"

record CloseResult =
  processedCount :: nat
  closedCount :: nat

definition evictStep ::
  "BrowserConfig \<Rightarrow> SweepEnv \<Rightarrow> int \<Rightarrow> nat \<Rightarrow> BrowserProfile
     \<Rightarrow> BrowserPool \<times> CloseResult \<times> PoolEvent list
     \<Rightarrow> BrowserPool \<times> CloseResult \<times> PoolEvent list" where
  "evictStep cfg env maxTimeSeconds k p st =
     (case st of (pool, result, evs) \<Rightarrow>
        (let ageInSeconds = getProfileAgeInSeconds (clockAt env k) p;
             result1 = result\<lparr> processedCount := Suc (processedCount result) \<rparr>;
             release = (\<lambda>evs'.
               (case returnBrowserProfile cfg pool p True of (pool', revs) \<Rightarrow>
                  (pool', result1\<lparr> closedCount := Suc (closedCount result1) \<rparr>,
                   evs' @ [WaitMs 2000, KillIfRunning (pid p)] @ revs)))
         in if ageInSeconds \<ge> maxTimeSeconds then
              if protected p = Some True then
                (pool, result1, evs @ [LogProtectedSkip (instanceNo p)])
              else
                (case browser p of
                   Some b \<Rightarrow>
                     if closeRaises env b then
                       (pool, result1,
                        evs @ [ManageTabs (instanceNo p), CloseBrowser (instanceNo p),
                               LogCloseError (instanceNo p)])
                     else release (evs @ [ManageTabs (instanceNo p), CloseBrowser (instanceNo p)])
                 | None \<Rightarrow> release evs)
            else (pool, result1, evs @ [LogWithinLimit (instanceNo p)])))"

fun closeLoop ::
  "BrowserConfig \<Rightarrow> SweepEnv \<Rightarrow> int \<Rightarrow> nat \<Rightarrow> BrowserProfile list
     \<Rightarrow> BrowserPool \<times> CloseResult \<times> PoolEvent list
     \<Rightarrow> BrowserPool \<times> CloseResult \<times> PoolEvent list" where
  "closeLoop cfg env maxTimeSeconds k [] st = st"
| "closeLoop cfg env maxTimeSeconds k (p # ps) st =
     closeLoop cfg env maxTimeSeconds (Suc k) ps (evictStep cfg env maxTimeSeconds k p st)"

definition forceCloseBrowsersOlderThan ::
  "BrowserConfig \<Rightarrow> SweepEnv \<Rightarrow> int \<Rightarrow> BrowserPool
     \<Rightarrow> BrowserPool \<times> CloseResult \<times> PoolEvent list" where
  "forceCloseBrowsersOlderThan cfg env maxTimeSeconds pool =
     (if used pool = [] then (pool, \<lparr> processedCount = 0, closedCount = 0 \<rparr>, [])
      else closeLoop cfg env maxTimeSeconds 0 (used pool)
             (pool, \<lparr> processedCount = 0, closedCount = 0 \<rparr>, []))"

text \<open>
  Sequences of pool calls: \<open>Allocate now context\<close> is \<open>getBrowserProfile(context)\<close> at clock
  reading \<open>now\<close>, \<open>Release p deleteFile\<close> is \<open>returnBrowserProfile(p, deleteFile)\<close>.
  \<open>allocations\<close> lists what each \<open>getBrowserProfile\<close> of the sequence returned.
\<close>

datatype PoolOp = Allocate int string | Release BrowserProfile bool

fun applyOp :: "BrowserConfig \<Rightarrow> BrowserPool \<Rightarrow> PoolOp \<Rightarrow> BrowserPool" where
  "applyOp cfg pool (Allocate now context) = fst (snd (getBrowserProfile now context pool))"
| "applyOp cfg pool (Release p deleteFile) = fst (returnBrowserProfile cfg pool p deleteFile)"

definition runOps :: "BrowserConfig \<Rightarrow> PoolOp list \<Rightarrow> BrowserPool" where
  "runOps cfg ops = foldl (applyOp cfg) (initPool cfg) ops"

fun allocations ::
  "BrowserConfig \<Rightarrow> BrowserPool \<Rightarrow> PoolOp list \<Rightarrow> BrowserProfile option list" where
  "allocations cfg pool [] = []"
| "allocations cfg pool (Allocate now context # ops) =
     fst (getBrowserProfile now context pool)
       # allocations cfg (applyOp cfg pool (Allocate now context)) ops"
| "allocations cfg pool (Release p deleteFile # ops) =
     allocations cfg (applyOp cfg pool (Release p deleteFile)) ops"

text \<open>
  Callers hold a reference to the slot object and assign \<open>profile.protected\<close> and
  \<open>profile.browser\<close> on it; in the by-value model the assignment updates the slot with that
  instance number wherever the pool holds it.
\<close>

definition assignProtected :: "nat \<Rightarrow> bool \<Rightarrow> BrowserPool \<Rightarrow> BrowserPool" where
  "assignProtected i b pool =
     (let upd = (\<lambda>q. if instanceNo q = i then q\<lparr> protected := Some b \<rparr> else q)
      in \<lparr> available = map upd (available pool), used = map upd (used pool) \<rparr>)"

definition assignBrowser :: "nat \<Rightarrow> nat \<Rightarrow> BrowserPool \<Rightarrow> BrowserPool" where
  "assignBrowser i b pool =
     (let upd = (\<lambda>q. if instanceNo q = i then q\<lparr> browser := Some b \<rparr> else q)
      in \<lparr> available = map upd (available pool), used = map upd (used pool) \<rparr>)"

text \<open>A concrete configuration and pool states used to evaluate the definitions.\<close>

definition exampleConfig :: BrowserConfig where
  "exampleConfig = \<lparr> userDataPath = ''/data/{__context__}/p{__instance__}'', poolSize = 3 \<rparr>"

definition exampleSlot :: BrowserProfile where
  "exampleSlot =
     \<lparr> profile = ''/data/default/p01'', pid = ''/data/default/p01/pid.txt'', instanceNo = 1,
       browser = Some 7, usedSince = Some 0, protected = None \<rparr>"

definition examplePool :: BrowserPool where
  "examplePool = \<lparr> available = [newProfile exampleConfig 2, newProfile exampleConfig 3],
                   used = [exampleSlot] \<rparr>"

text \<open>Two sweep environments: every clock reading is 20 s, closing succeeds or fails.\<close>

definition calmSweep :: SweepEnv where
  "calmSweep = \<lparr> clockAt = (\<lambda>k. 20000), closeRaises = (\<lambda>b. False) \<rparr>"

definition failingSweep :: SweepEnv where
  "failingSweep = \<lparr> clockAt = (\<lambda>k. 20000), closeRaises = (\<lambda>b. True) \<rparr>"

section \<open>waitRandomTime\<close>

text \<open>
  \<open>waitRandomTime(minMs, maxMs)\<close>. Durations are real numbers of milliseconds;
  \<open>random n\<close> is the value of the \<open>n\<close>-th call of \<open>Math.random()\<close>, and the function returns
  the duration handed to \<open>setTimeout\<close> together with the number of draws made so far.
  The swap and the draw happen only inside the \<open>if (minMs > maxMs)\<close>.
\<close>

definition waitRandomTime :: "(nat \<Rightarrow> real) \<Rightarrow> nat \<Rightarrow> real \<Rightarrow> real \<Rightarrow> real \<times> nat" where
  "waitRandomTime random n minMs maxMs =
     (if minMs > maxMs then
        (case (maxMs, minMs) of (minMs', maxMs') \<Rightarrow>
           (of_int \<lfloor>random n * (maxMs' - minMs' + 1)\<rfloor> + minMs', Suc n))
      else (minMs, n))"

section \<open>Order pages: classification and search\<close>

text \<open>
  Strings are byte strings; \<open>trim\<close>, \<open>toUpperCase\<close> and \<open>toLowerCase\<close> act on ASCII
  white space and letters. \<open>includesStr\<close> is \<open>String.prototype.includes\<close>.
\<close>

definition isWhitespace :: "char \<Rightarrow> bool" where
  "isWhitespace c = ((of_char c :: nat) \<in> {32, 9, 10, 11, 12, 13})"

definition trim :: "string \<Rightarrow> string" where
  "trim s = rev (dropWhile isWhitespace (rev (dropWhile isWhitespace s)))"

definition toUpperCase :: "string \<Rightarrow> string" where
  "toUpperCase s =
     map (\<lambda>c. if 97 \<le> (of_char c :: nat) \<and> (of_char c :: nat) \<le> 122
               then char_of ((of_char c :: nat) - 32) else c) s"

definition toLowerCase :: "string \<Rightarrow> string" where
  "toLowerCase s =
     map (\<lambda>c. if 65 \<le> (of_char c :: nat) \<and> (of_char c :: nat) \<le> 90
               then char_of ((of_char c :: nat) + 32) else c) s"

fun includesStr :: "string \<Rightarrow> string \<Rightarrow> bool" where
  "includesStr [] needle = (needle = [])"
| "includesStr (c # cs) needle = (take (length needle) (c # cs) = needle \<or> includesStr cs needle)"

text \<open>
  \<open>checkForDeliveryIssue\<close>. What the order page yields is the environment: the text of
  the issue element found by the selector strategies (\<open>Returns None\<close> when no strategy finds
  one, \<open>Raises\<close> when the element search throws, which the inner \<open>catch\<close> logs), the text of
  the whole page for the fallback, and the excerpt the fallback extracts. A \<open>Raises\<close> of
  the last two reaches the outer \<open>catch\<close>.
\<close>

datatype 'a outcome = Raises | Returns 'a

record IssuePage =
  elementText :: "string option outcome"
  pageText :: "string outcome"
  extractedText :: "string outcome"

record IssueCheck =
  hasIssue :: bool
  issueText :: "string option"

definition elementIssueText :: "IssuePage \<Rightarrow> string option" where
  "elementIssueText page =
     (case elementText page of
        Raises \<Rightarrow> None
      | Returns None \<Rightarrow> None
      | Returns (Some t) \<Rightarrow>
          if t \<noteq> [] \<and> trim t \<noteq> [] then
            (let hasIssueContent =
                   (includesStr (toLowerCase t) ''delivery issue''
                    \<or> includesStr (toLowerCase t) ''missing food''
                    \<or> includesStr (toLowerCase t) ''issue''
                    \<or> includesStr (toLowerCase t) ''dispute''
                    \<or> includesStr (toLowerCase t) ''reported'')
             in if hasIssueContent then Some t else None)
          else None)"

definition finalIssueText :: "IssuePage \<Rightarrow> string option outcome" where
  "finalIssueText page =
     (case elementIssueText page of
        Some t \<Rightarrow> Returns (Some t)
      | None \<Rightarrow>
          (case pageText page of
             Raises \<Rightarrow> Raises
           | Returns text \<Rightarrow>
               (let hasAnyIssue =
                      (includesStr (toLowerCase text) ''delivery issue''
                       \<or> includesStr (toLowerCase text) ''missing food''
                       \<or> includesStr (toLowerCase text) ''issue dispute''
                       \<or> (includesStr (toLowerCase text) ''issues related to this order''
                           \<and> (includesStr (toLowerCase text) ''reported''
                                \<or> includesStr (toLowerCase text) ''missing''
                                \<or> includesStr (toLowerCase text) ''late'')))
                in if hasAnyIssue then
                     (case extractedText page of
                        Raises \<Rightarrow> Raises
                      | Returns excerpt \<Rightarrow> Returns (Some excerpt))
                   else Returns None)))"

definition checkForDeliveryIssue :: "IssuePage \<Rightarrow> IssueCheck" where
  "checkForDeliveryIssue page =
     (case finalIssueText page of
        Raises \<Rightarrow> \<lparr> hasIssue = False, issueText = None \<rparr>
      | Returns None \<Rightarrow> \<lparr> hasIssue = False, issueText = None \<rparr>
      | Returns (Some t) \<Rightarrow>
          (let found =
                 (t \<noteq> []
                  \<and> (includesStr (toLowerCase t) ''delivery issue''
                       \<or> includesStr (toLowerCase t) ''missing food''
                       \<or> includesStr (toLowerCase t) ''issue dispute''
                       \<or> includesStr (toLowerCase t) ''dispute is pending''
                       \<or> includesStr (toLowerCase t) ''issues related to this order''
                       \<or> (includesStr (toLowerCase t) ''reported''
                           \<and> includesStr (toLowerCase t) ''order'')))
           in \<lparr> hasIssue = found, issueText = (if found then Some t else None) \<rparr>))"

text \<open>\<open>OrderResult\<close> and the global state shared by the accounts of one run.\<close>

datatype OrderStatus = success | failure

record OrderResult =
  orderCode :: string
  account :: string
  status :: OrderStatus
  timestamp :: int
  issueDetails :: "string option"

record Tracking =
  valid :: "string list"
  processed :: "string list"
  notFound :: "string list"

record Globals =
  orderCodeTracking :: "Tracking option"
  orderResults :: "OrderResult list"

definition newOrderResult :: "string \<Rightarrow> string option \<Rightarrow> int \<Rightarrow> IssueCheck \<Rightarrow> OrderResult" where
  "newOrderResult code accountUsername now issueCheck =
     \<lparr> orderCode = code,
       account = (case accountUsername of
                    None \<Rightarrow> ''unknown''
                  | Some u \<Rightarrow> if u = [] then ''unknown'' else u),
       status = (if hasIssue issueCheck then failure else success),
       timestamp = now,
       issueDetails = issueText issueCheck \<rparr>"

text \<open>
  \<open>searchAndClickOrderCodes\<close>. The site's answer to the search for one code: the search
  input is missing, no result row appears, another step of the search throws, or rows
  are listed. For each row: it does not match (code or date), navigating to it throws, or
  the order page opens (with the code shown in the row, the clock reading, the page, and
  whether navigating back to the list throws afterwards; that error is caught inside the
  row loop, which then goes on to the next row). Every step that can throw sits inside the
  per-code \<open>try\<close> block, so the function's outer \<open>catch\<close> is never entered and has no
  branch here.
\<close>

datatype RowOutcome =
    RowNoMatch
  | RowGotoRaises
  | RowOpened string int IssuePage bool

datatype SearchOutcome =
    SearchInputMissing
  | NoResults
  | SearchRaises
  | Rows "RowOutcome list"

record SearchState =
  clickedCodes :: "string list"
  notFoundCodes :: "string list"
  processedCodes :: "string list"
  globals :: Globals

record SearchResult =
  clicked :: nat
  resultNotFound :: "string list"
  resultProcessed :: "string list"

definition markProcessed :: "string \<Rightarrow> Tracking option \<Rightarrow> Tracking option" where
  "markProcessed targetCode tracking =
     (case tracking of
        None \<Rightarrow> None
      | Some t \<Rightarrow>
          Some (if targetCode \<in> set (processed t) then t
                else t\<lparr> processed := processed t @ [targetCode] \<rparr>))"

fun rowsLoop ::
  "string \<Rightarrow> string option \<Rightarrow> RowOutcome list \<Rightarrow> SearchState \<Rightarrow> bool \<times> SearchState" where
  "rowsLoop targetCode accountUsername [] st = (False, st)"
| "rowsLoop targetCode accountUsername (RowNoMatch # rows) st =
     rowsLoop targetCode accountUsername rows st"
| "rowsLoop targetCode accountUsername (RowGotoRaises # rows) st =
     rowsLoop targetCode accountUsername rows st"
| "rowsLoop targetCode accountUsername (RowOpened code now page backRaises # rows) st =
     (let issueCheck = checkForDeliveryIssue page;
          g = globals st;
          st' = st\<lparr> clickedCodes := clickedCodes st @ [targetCode],
                   processedCodes := processedCodes st @ [targetCode],
                   globals := g\<lparr> orderCodeTracking := markProcessed targetCode (orderCodeTracking g),
                                orderResults := orderResults g
                                  @ [newOrderResult code accountUsername now issueCheck] \<rparr> \<rparr>
      in if backRaises then (True, snd (rowsLoop targetCode accountUsername rows st'))
         else (True, st'))"

definition searchOneCode ::
  "SearchOutcome \<Rightarrow> string \<Rightarrow> string option \<Rightarrow> SearchState \<Rightarrow> SearchState" where
  "searchOneCode found targetCode accountUsername st =
     (case found of
        SearchInputMissing \<Rightarrow> st\<lparr> notFoundCodes := notFoundCodes st @ [targetCode] \<rparr>
      | NoResults \<Rightarrow> st\<lparr> notFoundCodes := notFoundCodes st @ [targetCode] \<rparr>
      | SearchRaises \<Rightarrow> st\<lparr> notFoundCodes := notFoundCodes st @ [targetCode] \<rparr>
      | Rows rows \<Rightarrow>
          (case rowsLoop targetCode accountUsername rows st of
             (foundMatch, st') \<Rightarrow>
               if foundMatch then st'
               else st'\<lparr> notFoundCodes := notFoundCodes st' @ [targetCode] \<rparr>))"

fun codesLoop ::
  "(nat \<Rightarrow> SearchOutcome) \<Rightarrow> string list \<Rightarrow> string option \<Rightarrow> nat \<Rightarrow> string list
     \<Rightarrow> SearchState \<Rightarrow> SearchState" where
  "codesLoop search alreadyProcessed accountUsername k [] st = st"
| "codesLoop search alreadyProcessed accountUsername k (targetCode # codes) st =
     codesLoop search alreadyProcessed accountUsername (Suc k) codes
       (if targetCode \<in> set alreadyProcessed then st
        else searchOneCode (search k) targetCode accountUsername st)"

definition searchAndClickOrderCodes ::
  "(nat \<Rightarrow> SearchOutcome) \<Rightarrow> string list \<Rightarrow> string option \<Rightarrow> Globals
     \<Rightarrow> SearchResult \<times> Globals" where
  "searchAndClickOrderCodes search orderCodes accountUsername g =
     (let normalizedCodes = map (\<lambda>code. toUpperCase (trim code)) orderCodes;
          alreadyProcessed = (case orderCodeTracking g of None \<Rightarrow> [] | Some t \<Rightarrow> processed t);
          st = codesLoop search alreadyProcessed accountUsername 0 normalizedCodes
                 \<lparr> clickedCodes = [], notFoundCodes = [], processedCodes = [], globals = g \<rparr>
      in (\<lparr> clicked = length (clickedCodes st),
            resultNotFound = notFoundCodes st,
            resultProcessed = processedCodes st \<rparr>,
          globals st))"

section \<open>testIntegrated: the tracker across accounts\<close>

text \<open>\<open>[...new Set(xs)]\<close>: duplicates removed, first occurrences kept in order.\<close>

definition dedupe :: "'a list \<Rightarrow> 'a list" where
  "dedupe xs = foldl (\<lambda>acc x. if x \<in> set acc then acc else acc @ [x]) [] xs"

definition initTracking :: "string list \<Rightarrow> Tracking option" where
  "initTracking allOrderCodes =
     (if allOrderCodes \<noteq> [] then
        Some \<lparr> valid = map (\<lambda>code. toUpperCase (trim code)) allOrderCodes,
               processed = [], notFound = [] \<rparr>
      else None)"

definition updateTracking :: "SearchResult \<Rightarrow> Tracking \<Rightarrow> Tracking" where
  "updateTracking searchResult globalTracking =
     (let processed' = dedupe (processed globalTracking @ resultProcessed searchResult);
          notFound' = filter (\<lambda>code. code \<notin> set processed') (notFound globalTracking);
          notFound'' =
            foldl (\<lambda>nf notFoundCode.
                     if notFoundCode \<notin> set processed' \<and> notFoundCode \<notin> set nf
                     then nf @ [notFoundCode] else nf)
                  notFound' (resultNotFound searchResult)
      in globalTracking\<lparr> processed := processed', notFound := notFound'' \<rparr>)"

text \<open>
  One account of the run. \<open>NotReached\<close>: the pass ends before the order search (login
  failed four times, a step threw, or the "Completed" link was not found); the tracker is
  untouched. \<open>Reached codes search\<close>: the order codes read from the configuration at that
  moment and the site's answers to the searches.
\<close>

datatype AccountRun = NotReached | Reached "string list" "nat \<Rightarrow> SearchOutcome"

record RunState =
  runGlobals :: Globals
  accountsWithNoOrders :: "string list"

definition accountPass :: "RunState \<Rightarrow> string \<times> AccountRun \<Rightarrow> RunState" where
  "accountPass st a =
     (case a of
        (username, NotReached) \<Rightarrow> st
      | (username, Reached orderCodesToFilter search) \<Rightarrow>
          if orderCodesToFilter = [] then
            st\<lparr> accountsWithNoOrders := accountsWithNoOrders st @ [username] \<rparr>
          else
            (let normalizedCodes = map (\<lambda>code. toUpperCase (trim code)) orderCodesToFilter;
                 alreadyProcessed =
                   (case orderCodeTracking (runGlobals st) of None \<Rightarrow> [] | Some t \<Rightarrow> processed t);
                 codesToProcess = filter (\<lambda>code. code \<notin> set alreadyProcessed) normalizedCodes
             in if codesToProcess = [] then st
                else
                  (case searchAndClickOrderCodes search codesToProcess (Some username) (runGlobals st) of
                     (searchResult, g) \<Rightarrow>
                       st\<lparr> runGlobals :=
                             g\<lparr> orderCodeTracking :=
                                   map_option (updateTracking searchResult) (orderCodeTracking g) \<rparr>,
                           accountsWithNoOrders :=
                             (if clicked searchResult = 0
                                 \<and> length (resultNotFound searchResult) = length codesToProcess
                              then accountsWithNoOrders st @ [username]
                              else accountsWithNoOrders st) \<rparr>)))"

definition startRun :: "string list \<Rightarrow> RunState" where
  "startRun allOrderCodes =
     \<lparr> runGlobals = \<lparr> orderCodeTracking = initTracking allOrderCodes, orderResults = [] \<rparr>,
       accountsWithNoOrders = [] \<rparr>"

definition runAccounts :: "string list \<Rightarrow> (string \<times> AccountRun) list \<Rightarrow> RunState" where
  "runAccounts allOrderCodes accounts = foldl accountPass (startRun allOrderCodes) accounts"

text \<open>The summary at the end of the run filters \<open>notFound\<close> once more.\<close>

definition finishRun :: "RunState \<Rightarrow> RunState" where
  "finishRun st =
     st\<lparr> runGlobals :=
           (runGlobals st)\<lparr> orderCodeTracking :=
             map_option (\<lambda>t. t\<lparr> notFound := filter (\<lambda>code. code \<notin> set (processed t)) (notFound t) \<rparr>)
                        (orderCodeTracking (runGlobals st)) \<rparr> \<rparr>"

text \<open>
  A concrete run: the universe is A, B, C; the first account locates A and B and finds
  nothing for C; the second account locates C.
\<close>

definition plainOrderPage :: IssuePage where
  "plainOrderPage =
     \<lparr> elementText = Returns None, pageText = Returns ''Order details'',
       extractedText = Returns [] \<rparr>"

definition exampleAccounts :: "(string \<times> AccountRun) list" where
  "exampleAccounts =
     [(''first@example.com'',
       Reached [''a'', '' b '', ''C'']
         (\<lambda>k. if k < 2 then Rows [RowNoMatch, RowOpened ''#X'' 0 plainOrderPage False]
              else NoResults)),
      (''second@example.com'',
       Reached [''a'', '' b '', ''C'']
         (\<lambda>k. Rows [RowOpened ''#C'' 0 plainOrderPage False]))]"

section \<open>performLogin: acquiring and submitting the verification code\<close>

text \<open>
  The two code sources are the environment: \<open>gmailAPI k\<close> and \<open>gmailPuppeteer k\<close> are what the
  \<open>k\<close>-th call (from 0) of \<open>getVerificationCodeFromGmailAPI\<close> and of
  \<open>getVerificationCodeFromGmail\<close> returns, \<open>None\<close> for \<open>null\<close>; both functions catch their own
  errors. \<open>maxCodeRetries\<close> is 0 when the configuration leaves it out.
\<close>

record CodeSources =
  canUseGmailAPI :: bool
  maxCodeRetries :: nat
  gmailAPI :: "nat \<Rightarrow> string option"
  gmailPuppeteer :: "nat \<Rightarrow> string option"

datatype AcquireEvent =
    CallGmailAPI nat "string option"
  | CallPuppeteer nat "string option"
  | WaitForRetry nat

text \<open>JavaScript truthiness of \<open>code\<close>: neither \<open>null\<close> nor the empty string.\<close>

definition truthy :: "string option \<Rightarrow> bool" where
  "truthy code = (case code of None \<Rightarrow> False | Some s \<Rightarrow> s \<noteq> [])"

definition effectiveCodeRetries :: "CodeSources \<Rightarrow> nat" where
  "effectiveCodeRetries src = (if maxCodeRetries src = 0 then 3 else maxCodeRetries src)"

text \<open>
  The loop \<open>for (attempt = 1; attempt <= maxRetries; attempt++)\<close> over the remaining
  attempt numbers; the state is the variable \<open>code\<close> and the number of calls made to each
  source. Returned: the final \<open>code\<close> and what was called, in order.
\<close>

fun acquireLoop ::
  "CodeSources \<Rightarrow> nat \<Rightarrow> nat list \<Rightarrow> string option \<times> nat \<times> nat
     \<Rightarrow> string option \<times> AcquireEvent list" where
  "acquireLoop src maxRetries [] (code, i, j) = (code, [])"
| "acquireLoop src maxRetries (attempt # rest) (code, i, j) =
     (if canUseGmailAPI src then
        (let code1 = gmailAPI src i
         in if truthy code1 then (code1, [CallGmailAPI attempt code1])
            else if attempt < maxRetries then
              (let code2 = gmailPuppeteer src j
               in if truthy code2 then
                    (code2, [CallGmailAPI attempt code1, CallPuppeteer attempt code2])
                  else
                    (case acquireLoop src maxRetries rest (code2, Suc i, Suc j) of
                       (c, evs) \<Rightarrow>
                         (c, [CallGmailAPI attempt code1, CallPuppeteer attempt code2,
                              WaitForRetry attempt] @ evs)))
            else
              (case acquireLoop src maxRetries rest (code1, Suc i, j) of
                 (c, evs) \<Rightarrow> (c, CallGmailAPI attempt code1 # evs)))
      else
        (let code1 = gmailPuppeteer src j
         in if truthy code1 then (code1, [CallPuppeteer attempt code1])
            else
              (case acquireLoop src maxRetries rest (code1, i, Suc j) of
                 (c, evs) \<Rightarrow>
                   (c, CallPuppeteer attempt code1
                       # (if attempt < maxRetries then [WaitForRetry attempt] else []) @ evs))))"

definition acquireCode :: "CodeSources \<Rightarrow> string option \<times> AcquireEvent list" where
  "acquireCode src =
     acquireLoop src (effectiveCodeRetries src) [1 ..< Suc (effectiveCodeRetries src)]
       (None, 0, 0)"

text \<open>
  \<open>performLogin\<close> from the point where the credentials have been entered. The page is the
  environment: the error the credential steps return with (if any), whether the code
  input appears within the wait, whether a page interaction of the challenge block
  throws (the block's \<open>catch\<close> then goes on to the verification), whether the code input is
  found again after the code was fetched, whether a logged-in indicator is configured
  and whether it is found. The optional choice of the e-mail verification method catches
  its own errors and does not change the control flow.
\<close>

record LoginPage =
  credentialError :: "string option"
  challengeShown :: bool
  challengeStepRaises :: bool
  codeInputPresent :: bool
  loggedInIndicator :: bool
  indicatorFound :: bool

record LoginResult =
  loginSuccess :: bool
  loginError :: "string option"
  submittedCode :: "string option"
  codeCalls :: "AcquireEvent list"

definition isLoggedIn :: "LoginPage \<Rightarrow> bool" where
  "isLoggedIn page = (if \<not> loggedInIndicator page then False else indicatorFound page)"

definition verifyLogin :: "LoginPage \<Rightarrow> string option \<Rightarrow> AcquireEvent list \<Rightarrow> LoginResult" where
  "verifyLogin page typed calls =
     (if isLoggedIn page then
        \<lparr> loginSuccess = True, loginError = None, submittedCode = typed, codeCalls = calls \<rparr>
      else if \<not> loggedInIndicator page then
        \<lparr> loginSuccess = True, loginError = None, submittedCode = typed, codeCalls = calls \<rparr>
      else
        \<lparr> loginSuccess = False, loginError = Some ''Login verification failed'',
          submittedCode = typed, codeCalls = calls \<rparr>)"

definition performLogin :: "bool \<Rightarrow> LoginPage \<Rightarrow> CodeSources \<Rightarrow> LoginResult" where
  "performLogin gmailConfigured page src =
     (if \<not> gmailConfigured then
        \<lparr> loginSuccess = False, loginError = Some ''Gmail configuration not found'',
          submittedCode = None, codeCalls = [] \<rparr>
      else
        (case credentialError page of
           Some e \<Rightarrow>
             \<lparr> loginSuccess = False, loginError = Some e, submittedCode = None, codeCalls = [] \<rparr>
         | None \<Rightarrow>
             if challengeShown page then
               (case acquireCode src of
                  (code, calls) \<Rightarrow>
                    if \<not> truthy code then
                      \<lparr> loginSuccess = False,
                        loginError = Some ''Could not retrieve verification code from Gmail'',
                        submittedCode = None, codeCalls = calls \<rparr>
                    else if challengeStepRaises page then verifyLogin page None calls
                    else if codeInputPresent page then verifyLogin page code calls
                    else
                      \<lparr> loginSuccess = False,
                        loginError =
                          Some ''Verification code input not found after returning from Gmail'',
                        submittedCode = None, codeCalls = calls \<rparr>)
             else verifyLogin page None []))"

text \<open>Concrete sources: the API never finds the code, the inbox page has it.\<close>

definition apiSilent :: "nat \<Rightarrow> CodeSources" where
  "apiSilent retries =
     \<lparr> canUseGmailAPI = True, maxCodeRetries = retries,
       gmailAPI = (\<lambda>k. None), gmailPuppeteer = (\<lambda>k. Some ''482913'') \<rparr>"

definition inboxLate :: CodeSources where
  "inboxLate =
     \<lparr> canUseGmailAPI = True, maxCodeRetries = 0,
       gmailAPI = (\<lambda>k. None), gmailPuppeteer = (\<lambda>k. if k < 2 then None else Some ''482913'') \<rparr>"

definition challengePage :: LoginPage where
  "challengePage =
     \<lparr> credentialError = None, challengeShown = True, challengeStepRaises = False,
       codeInputPresent = True, loggedInIndicator = True, indicatorFound = True \<rparr>"

section \<open>testIntegrated: login with retries, account by account\<close>

text \<open>
  What the page does when the code makes sure it is on the sign-in page: the URL already
  contains \<open>/sign_in\<close> (nothing is done), \<open>page.goto(signInUrl)\<close> succeeds, or it raises.
\<close>

datatype NavOutcome = OnSignIn | Navigated | NavRaises

text \<open>
  The environment of one account's login phase, indexed by the attempt number: the check
  when the account starts and at the top of each attempt, whether \<open>performLogout\<close> raises,
  the check after the logout, whether the direct navigation in the logout's \<open>catch\<close>
  raises (it is ignored), and whether \<open>performLogin\<close> reports success.
\<close>

record RetryEnv =
  atAccountStart :: NavOutcome
  beforeAttempt :: "nat \<Rightarrow> NavOutcome"
  logoutRaises :: "nat \<Rightarrow> bool"
  afterLogout :: "nat \<Rightarrow> NavOutcome"
  recoveryRaises :: "nat \<Rightarrow> bool"
  loginSucceeds :: "nat \<Rightarrow> bool"

text \<open>\<open>Wait a b\<close> is a call \<open>waitRandomTime(a, b)\<close>.\<close>

datatype RunEvent =
    AccountStart string
  | GotoSignIn
  | Logout
  | Login nat
  | Wait nat nat
  | RecordLoginIssue string
  | ProcessOrders string
  | AccountError string

datatype AttemptsOutcome = LoginOk nat | LoginExhausted | AccountAborted

definition MAX_LOGIN_ATTEMPTS :: nat where
  "MAX_LOGIN_ATTEMPTS = 4"

definition ensureSignIn :: "NavOutcome \<Rightarrow> RunEvent list" where
  "ensureSignIn nav =
     (case nav of
        OnSignIn \<Rightarrow> []
      | Navigated \<Rightarrow> [GotoSignIn, Wait 2000 3000]
      | NavRaises \<Rightarrow> [GotoSignIn])"

text \<open>
  The block \<open>if (attempt > 1) { try { logout; wait; check; goto } catch { goto } }\<close>,
  as the events after the \<open>Logout\<close>.
\<close>

definition afterLogoutEvents :: "RetryEnv \<Rightarrow> nat \<Rightarrow> RunEvent list" where
  "afterLogoutEvents env attempt =
     (let recovery = GotoSignIn # (if recoveryRaises env attempt then [] else [Wait 2000 3000])
      in if logoutRaises env attempt then recovery
         else Wait 2000 3000
              # (case afterLogout env attempt of
                   OnSignIn \<Rightarrow> []
                 | Navigated \<Rightarrow> [GotoSignIn, Wait 2000 3000]
                 | NavRaises \<Rightarrow> GotoSignIn # recovery))"

definition cleanupBeforeRetry :: "RetryEnv \<Rightarrow> nat \<Rightarrow> RunEvent list" where
  "cleanupBeforeRetry env attempt =
     (if attempt > 1 then Logout # afterLogoutEvents env attempt else [])"

fun loginAttempts ::
  "RetryEnv \<Rightarrow> nat \<Rightarrow> nat list \<Rightarrow> AttemptsOutcome \<times> RunEvent list" where
  "loginAttempts env maxAttempts [] = (LoginExhausted, [])"
| "loginAttempts env maxAttempts (attempt # rest) =
     (if beforeAttempt env attempt = NavRaises then
        (AccountAborted, ensureSignIn NavRaises)
      else if loginSucceeds env attempt then
        (LoginOk attempt,
         ensureSignIn (beforeAttempt env attempt) @ cleanupBeforeRetry env attempt
           @ [Login attempt])
      else
        (case loginAttempts env maxAttempts rest of
           (out, evs) \<Rightarrow>
             (out,
              ensureSignIn (beforeAttempt env attempt) @ cleanupBeforeRetry env attempt
                @ Login attempt
                # (if attempt < maxAttempts
                   then [Wait (3000 + attempt * 1000) (3000 + attempt * 1000)] else [])
                @ evs)))"

record LoginRun =
  accountsWithLoginIssues :: "string list"
  runEvents :: "RunEvent list"

text \<open>
  One iteration of the account loop, up to the point where the account is logged in
  (\<open>ProcessOrders\<close> stands for the rest of the pass). A raise inside the iteration is
  caught by the account's \<open>catch\<close>, which tries a logout and goes on to the next account.
\<close>

definition processAccount :: "LoginRun \<Rightarrow> string \<times> RetryEnv \<Rightarrow> LoginRun" where
  "processAccount st a =
     (case a of (username, env) \<Rightarrow>
        (let opening = runEvents st @ [AccountStart username] @ ensureSignIn (atAccountStart env)
         in if atAccountStart env = NavRaises then
              st\<lparr> runEvents := opening @ [AccountError username, Logout] \<rparr>
            else
              (case loginAttempts env MAX_LOGIN_ATTEMPTS [1 ..< Suc MAX_LOGIN_ATTEMPTS] of
                 (LoginOk k, evs) \<Rightarrow>
                   st\<lparr> runEvents := opening @ evs @ [ProcessOrders username] \<rparr>
               | (LoginExhausted, evs) \<Rightarrow>
                   st\<lparr> accountsWithLoginIssues := accountsWithLoginIssues st @ [username],
                       runEvents := opening @ evs @ [RecordLoginIssue username] \<rparr>
               | (AccountAborted, evs) \<Rightarrow>
                   st\<lparr> runEvents := opening @ evs @ [AccountError username, Logout] \<rparr>)))"

definition processAccounts :: "LoginRun \<Rightarrow> (string \<times> RetryEnv) list \<Rightarrow> LoginRun" where
  "processAccounts st accounts = foldl processAccount st accounts"

text \<open>
  Concrete environments: the page always sits on the sign-in page and nothing raises;
  the login succeeds at the second attempt, or never.
\<close>

definition secondTry :: RetryEnv where
  "secondTry =
     \<lparr> atAccountStart = OnSignIn, beforeAttempt = (\<lambda>k. OnSignIn), logoutRaises = (\<lambda>k. False),
       afterLogout = (\<lambda>k. OnSignIn), recoveryRaises = (\<lambda>k. False),
       loginSucceeds = (\<lambda>k. k = 2) \<rparr>"

definition neverIn :: RetryEnv where
  "neverIn =
     \<lparr> atAccountStart = OnSignIn, beforeAttempt = (\<lambda>k. OnSignIn), logoutRaises = (\<lambda>k. False),
       afterLogout = (\<lambda>k. Navigated), recoveryRaises = (\<lambda>k. False),
       loginSucceeds = (\<lambda>k. False) \<rparr>"

fun isLogin :: "RunEvent \<Rightarrow> bool" where
  "isLogin (Login k) = True"
| "isLogin e = False"

section \<open>testIntegrated: protecting the run's session slot\<close>

text \<open>
  How the run ends after \<open>initBrowser\<close>: the browser cannot be started (the process
  exits), every step completes, or a step inside the \<open>try\<close> block raises after the slot was
  marked.

  \<open>testIntegrated\<close> declares \<open>let profile: any = null\<close> at function level and, inside the
  \<open>try\<close> block, \<open>const profile = browserResult.profile\<close>. The inner constant is the one that
  is marked and, at the end of the \<open>try\<close> block, unmarked; the \<open>finally\<close> block reads the
  outer variable, which is never assigned.
\<close>

datatype RunOutcome = InitFails | RunCompletes | RunRaises

definition testIntegrated :: "int \<Rightarrow> RunOutcome \<Rightarrow> BrowserPool \<Rightarrow> BrowserPool" where
  "testIntegrated now outcome pool =
     (let outerProfile = (None :: BrowserProfile option)
      in case getBrowserProfile now ''default'' pool of
           (None, pool1, evs) \<Rightarrow> pool1
         | (Some slot, pool1, evs) \<Rightarrow>
             if outcome = InitFails then pool1
             else
               (let innerProfile = Some slot;
                    pool2 = (case innerProfile of
                               None \<Rightarrow> pool1
                             | Some p \<Rightarrow> assignProtected (instanceNo p) True pool1);
                    pool3 = (if outcome = RunCompletes then
                               (case innerProfile of
                                  None \<Rightarrow> pool2
                                | Some p \<Rightarrow> assignProtected (instanceNo p) False pool2)
                             else pool2);
                    pool4 = (case outerProfile of
                               None \<Rightarrow> pool3
                             | Some p \<Rightarrow> assignProtected (instanceNo p) False pool3)
                in pool4))"

section \<open>Properties of the session pool\<close>

subsection \<open>Lists: \<open>findIndex\<close> and \<open>splice\<close>\<close>

lemma findIndex_None_iff: "findIndex P xs = None \<longleftrightarrow> (\<forall>x \<in> set xs. \<not> P x)"
  by (induction xs) auto

lemma findIndex_Some_less: "findIndex P xs = Some i \<Longrightarrow> i < length xs"
  by (induction xs arbitrary: i) (auto split: if_splits)

lemma findIndex_Some_nth: "findIndex P xs = Some i \<Longrightarrow> P (xs ! i)"
  by (induction xs arbitrary: i) (auto split: if_splits)

lemma length_spliceOne: "i < length xs \<Longrightarrow> Suc (length (spliceOne i xs)) = length xs"
  by (auto simp: spliceOne_def)

lemma spliceOne_Cons_Suc: "spliceOne (Suc i) (x # xs) = x # spliceOne i xs"
  by (simp add: spliceOne_def)

lemma spliceOne_Cons_0: "spliceOne 0 (x # xs) = xs"
  by (simp add: spliceOne_def)

lemma set_spliceOne_subset: "set (spliceOne i xs) \<subseteq> set xs"
  by (auto simp: spliceOne_def dest: in_set_takeD in_set_dropD)

lemma spliceOne_keeps_others:
  "findIndex P xs = Some i \<Longrightarrow> q \<in> set xs \<Longrightarrow> \<not> P q \<Longrightarrow> q \<in> set (spliceOne i xs)"
proof (induction xs arbitrary: i)
  case Nil
  then show ?case by simp
next
  case (Cons x xs)
  show ?case
  proof (cases "P x")
    case True
    with Cons.prems show ?thesis by (auto simp: spliceOne_Cons_0)
  next
    case False
    with Cons.prems obtain j where j: "findIndex P xs = Some j" "i = Suc j" by auto
    with Cons.prems Cons.IH[OF j(1)] False show ?thesis
      by (auto simp: spliceOne_Cons_Suc)
  qed
qed

lemma spliceOne_removes_key:
  "distinct (map f xs) \<Longrightarrow> findIndex (\<lambda>q. f q = a) xs = Some i \<Longrightarrow> a \<notin> f ` set (spliceOne i xs)"
proof (induction xs arbitrary: i)
  case Nil
  then show ?case by simp
next
  case (Cons x xs)
  show ?case
  proof (cases "f x = a")
    case True
    with Cons.prems show ?thesis by (auto simp: spliceOne_Cons_0)
  next
    case False
    with Cons.prems obtain j where j: "findIndex (\<lambda>q. f q = a) xs = Some j" "i = Suc j" by auto
    with Cons.prems Cons.IH[OF _ j(1)] False show ?thesis
      by (auto simp: spliceOne_Cons_Suc)
  qed
qed

lemma spliceOne_remove1:
  "distinct (map f xs) \<Longrightarrow> p \<in> set xs \<Longrightarrow> findIndex (\<lambda>q. f q = f p) xs = Some i
     \<Longrightarrow> spliceOne i xs = remove1 p xs"
proof (induction xs arbitrary: i)
  case Nil
  then show ?case by simp
next
  case (Cons x xs)
  show ?case
  proof (cases "f x = f p")
    case True
    with Cons.prems have "x = p" by (auto simp: image_iff)
    with Cons.prems True show ?thesis by (auto simp: spliceOne_Cons_0)
  next
    case False
    with Cons.prems obtain j where j: "findIndex (\<lambda>q. f q = f p) xs = Some j" "i = Suc j" by auto
    with Cons.prems Cons.IH[OF _ _ j(1)] False show ?thesis
      by (auto simp: spliceOne_Cons_Suc)
  qed
qed

lemma distinct_map_spliceOne: "distinct (map f xs) \<Longrightarrow> distinct (map f (spliceOne i xs))"
proof (induction xs arbitrary: i)
  case Nil
  then show ?case by (simp add: spliceOne_def)
next
  case (Cons x xs)
  show ?case
  proof (cases i)
    case 0
    with Cons.prems show ?thesis by (simp add: spliceOne_Cons_0)
  next
    case (Suc j)
    have "f x \<notin> f ` set (spliceOne j xs)"
      using Cons.prems set_spliceOne_subset[of j xs] by auto
    with Cons.prems Cons.IH[of j] Suc show ?thesis
      by (simp add: spliceOne_Cons_Suc)
  qed
qed

subsection \<open>Facts about the two pool operations\<close>

lemma instanceNo_newProfile: "instanceNo (newProfile cfg i) = i"
  by (simp add: newProfile_def Let_def)

lemma slots_total_get:
  "length (available (fst (snd (getBrowserProfile now c pool))))
     + length (used (fst (snd (getBrowserProfile now c pool))))
   = length (available pool) + length (used pool)"
  by (auto simp: getBrowserProfile_def Let_def split: list.splits)

lemma slots_total_return:
  "length (available (fst (returnBrowserProfile cfg pool p d)))
     + length (used (fst (returnBrowserProfile cfg pool p d)))
   = length (available pool) + length (used pool)"
  using length_spliceOne[of _ "used pool"] findIndex_Some_less[of _ "used pool"]
  by (fastforce simp: returnBrowserProfile_def Let_def split: option.splits)

lemma slots_total_applyOp:
  "length (available (applyOp cfg pool op)) + length (used (applyOp cfg pool op))
     = length (available pool) + length (used pool)"
  by (cases op) (simp_all add: slots_total_get slots_total_return)

lemma slots_total_foldl:
  "length (available (foldl (applyOp cfg) pool ops)) + length (used (foldl (applyOp cfg) pool ops))
     = length (available pool) + length (used pool)"
  by (induction ops arbitrary: pool) (simp_all add: slots_total_applyOp)

lemma slots_total_runOps:
  "length (available (runOps cfg ops)) + length (used (runOps cfg ops))
     = length (available (initPool cfg))"
  using slots_total_foldl[of cfg "initPool cfg" ops] by (simp add: runOps_def initPool_def)

lemma get_None_iff: "fst (getBrowserProfile now c pool) = None \<longleftrightarrow> available pool = []"
  by (auto simp: getBrowserProfile_def Let_def split: list.splits)

lemma scenario_three_slots:
  "poolSize cfg = 3 \<Longrightarrow>
     length (available (initPool cfg)) = 3
     \<and> map (\<lambda>r. r \<noteq> None)
          (allocations cfg (initPool cfg)
             [Allocate t1 c1, Allocate t2 c2, Allocate t3 c3, Allocate t4 c4])
        = [True, True, True, False]"
  by (simp add: initPool_def effectivePoolSize_def getBrowserProfile_def Let_def
        upt_rec[of 1] upt_rec[of 2] upt_rec[of 3] numeral_2_eq_2 numeral_3_eq_3)

text \<open>
  Claim C1 (pool capacity invariant). Start from the pool that \<open>initPool\<close> builds, with
  \<open>N\<close> slots, and run any sequence of \<open>getBrowserProfile\<close> and \<open>returnBrowserProfile\<close> calls
  (any arguments). Then the number of checked-out slots is at most \<open>N\<close>, and a further
  \<open>getBrowserProfile\<close> returns \<open>null\<close> exactly when the checked-out count equals \<open>N\<close>, which
  is exactly when the available list is empty. With a configured pool size of 3 the pool
  has three slots, three allocations in a row succeed and the fourth returns \<open>null\<close>.
\<close>

theorem pool_capacity_invariant:
  "length (used (runOps cfg ops)) \<le> length (available (initPool cfg))
   \<and> (fst (getBrowserProfile now context (runOps cfg ops)) = None
        \<longleftrightarrow> length (used (runOps cfg ops)) = length (available (initPool cfg)))
   \<and> (fst (getBrowserProfile now context (runOps cfg ops)) = None
        \<longleftrightarrow> available (runOps cfg ops) = [])
   \<and> (poolSize cfg = 3 \<longrightarrow>
        length (available (initPool cfg)) = 3
        \<and> map (\<lambda>r. r \<noteq> None)
             (allocations cfg (initPool cfg)
                [Allocate t1 c1, Allocate t2 c2, Allocate t3 c3, Allocate t4 c4])
           = [True, True, True, False])"
proof -
  have total: "length (available (runOps cfg ops)) + length (used (runOps cfg ops))
                 = length (available (initPool cfg))"
    by (rule slots_total_runOps)
  have a: "length (used (runOps cfg ops)) \<le> length (available (initPool cfg))"
    using total by arith
  have b: "fst (getBrowserProfile now context (runOps cfg ops)) = None
        \<longleftrightarrow> length (used (runOps cfg ops)) = length (available (initPool cfg))"
    using total by (auto simp: get_None_iff)
  show ?thesis using a b scenario_three_slots[of cfg t1 c1 t2 c2 t3 c3 t4 c4]
    by (simp add: get_None_iff)
qed

theorem pool_capacity_invariant_witness:
  "poolSize exampleConfig = 3
   \<and> length (used (runOps exampleConfig [Allocate 5 ''default'', Allocate 6 ''default'',
          Release exampleSlot True, Allocate 7 ''default'', Allocate 8 ''default''])) = 3
   \<and> fst (getBrowserProfile 9 ''default'' (runOps exampleConfig [Allocate 5 ''default'',
          Allocate 6 ''default'', Release exampleSlot True, Allocate 7 ''default'',
          Allocate 8 ''default''])) = None
   \<and> map (\<lambda>r. r \<noteq> None)
        (allocations exampleConfig (initPool exampleConfig)
           [Allocate 1 ''a'', Allocate 2 ''b'', Allocate 3 ''c'', Allocate 4 ''d''])
      = [True, True, True, False]"
proof -
  have size: "poolSize exampleConfig = 3" by (simp add: exampleConfig_def)
  have len: "length (used (runOps exampleConfig [Allocate 5 ''default'', Allocate 6 ''default'',
          Release exampleSlot True, Allocate 7 ''default'', Allocate 8 ''default''])) = 3"
    by (simp add: runOps_def initPool_def effectivePoolSize_def exampleConfig_def
          getBrowserProfile_def returnBrowserProfile_def Let_def exampleSlot_def newProfile_def
          spliceOne_def upt_rec[of 1] upt_rec[of 2] upt_rec[of 3] numeral_2_eq_2 numeral_3_eq_3)
  show ?thesis
    using size len
      pool_capacity_invariant[of exampleConfig "[Allocate 5 ''default'', Allocate 6 ''default'',
          Release exampleSlot True, Allocate 7 ''default'', Allocate 8 ''default'']"
          9 "''default''" 1 "''a''" 2 "''b''" 3 "''c''" 4 "''d''"]
    by simp
qed

text \<open>
  Claim C7 (idempotent release). When the slot handed to \<open>returnBrowserProfile\<close> is not in
  the checked-out list (no checked-out slot has its instance number), the call returns
  normally with the pool unchanged: the available and used lists and every slot in them
  are the same, and the only effect is the warning written to the log.
\<close>

theorem release_of_available_slot_is_ignored:
  "instanceNo p \<notin> instanceNo ` set (used pool) \<Longrightarrow>
     returnBrowserProfile cfg pool p deleteFile = (pool, [LogUnknownProfile (instanceNo p)])"
proof -
  assume "instanceNo p \<notin> instanceNo ` set (used pool)"
  then have "findIndex (\<lambda>q. instanceNo q = instanceNo p) (used pool) = None"
    unfolding findIndex_None_iff by (metis imageI)
  then show ?thesis by (simp add: returnBrowserProfile_def)
qed

theorem release_of_available_slot_is_ignored_witness:
  "instanceNo (newProfile exampleConfig 2) \<notin> instanceNo ` set (used examplePool)
   \<and> newProfile exampleConfig 2 \<in> set (available examplePool)
   \<and> returnBrowserProfile exampleConfig examplePool (newProfile exampleConfig 2) True
       = (examplePool, [LogUnknownProfile 2])"
proof -
  have h: "instanceNo (newProfile exampleConfig 2) \<notin> instanceNo ` set (used examplePool)"
    by (simp add: examplePool_def exampleSlot_def instanceNo_newProfile)
  have i: "instanceNo (newProfile exampleConfig 2) = 2" by (simp add: instanceNo_newProfile)
  show ?thesis
    using h i release_of_available_slot_is_ignored[OF h, of exampleConfig True]
    by (simp add: examplePool_def)
qed

subsection \<open>Release of a checked-out slot\<close>

lemma return_found:
  "findIndex (\<lambda>q. instanceNo q = instanceNo p) (used pool) = Some i \<Longrightarrow>
     fst (returnBrowserProfile cfg pool p d)
       = \<lparr> available = available pool
                @ [p\<lparr> profile := profile (newProfile cfg (instanceNo p)),
                      pid := pid (newProfile cfg (instanceNo p)),
                      browser := None, usedSince := None \<rparr>],
           used = spliceOne i (used pool) \<rparr>"
  by (simp add: returnBrowserProfile_def newProfile_def Let_def)

lemma findIndex_Some_ex: "\<exists>x \<in> set xs. P x \<Longrightarrow> \<exists>i. findIndex P xs = Some i"
  using findIndex_None_iff[of P xs] by (cases "findIndex P xs") auto

lemma return_used_subset:
  "set (used (fst (returnBrowserProfile cfg pool p d))) \<subseteq> set (used pool)"
  using set_spliceOne_subset[of _ "used pool"]
  by (auto simp: returnBrowserProfile_def Let_def split: option.splits)

lemma return_available_mono:
  "set (available pool) \<subseteq> set (available (fst (returnBrowserProfile cfg pool p d)))"
  by (auto simp: returnBrowserProfile_def Let_def split: option.splits)

lemma return_distinct:
  "distinct (map instanceNo (used pool)) \<Longrightarrow>
     distinct (map instanceNo (used (fst (returnBrowserProfile cfg pool p d))))"
  by (auto simp: returnBrowserProfile_def Let_def distinct_map_spliceOne split: option.splits)

lemma return_keeps_others:
  "q \<in> set (used pool) \<Longrightarrow> instanceNo p \<noteq> instanceNo q \<Longrightarrow>
     q \<in> set (used (fst (returnBrowserProfile cfg pool p d)))"
  using spliceOne_keeps_others[of "\<lambda>q. instanceNo q = instanceNo p" "used pool" _ q]
  by (auto simp: returnBrowserProfile_def Let_def split: option.splits)

lemma return_events:
  "e \<in> set (snd (returnBrowserProfile cfg pool p d)) \<Longrightarrow>
     e = PurgePidFile (pid p) \<or> (\<exists>n. e = LogReturned (instanceNo p) n)
       \<or> e = LogUnknownProfile (instanceNo p)"
  by (auto simp: returnBrowserProfile_def Let_def split: option.splits if_splits)

text \<open>
  Claim C6, as amended. For a checked-out slot \<open>p\<close> of a pool whose checked-out slots have
  distinct instance numbers, \<open>returnBrowserProfile\<close> removes \<open>p\<close> from the used list and
  appends it to the available list with the profile path and the PID path reset to the
  values \<open>initPool\<close> gave the slot (instance number filled in, context placeholder left in
  place) and with \<open>browser\<close> and \<open>usedSince\<close> cleared. The \<open>protected\<close> field is left as it
  was: release does not clear it.
\<close>

theorem release_resets_slot:
  assumes "p \<in> set (used pool)" and "distinct (map instanceNo (used pool))"
  shows "available (fst (returnBrowserProfile cfg pool p deleteFile))
           = available pool @ [last (available (fst (returnBrowserProfile cfg pool p deleteFile)))]
         \<and> used (fst (returnBrowserProfile cfg pool p deleteFile)) = remove1 p (used pool)
         \<and> last (available (fst (returnBrowserProfile cfg pool p deleteFile)))
             = p\<lparr> profile := profile (newProfile cfg (instanceNo p)),
                   pid := pid (newProfile cfg (instanceNo p)),
                   browser := None, usedSince := None \<rparr>
         \<and> protected (last (available (fst (returnBrowserProfile cfg pool p deleteFile))))
             = protected p"
proof -
  from assms(1) obtain i where i: "findIndex (\<lambda>q. instanceNo q = instanceNo p) (used pool) = Some i"
    using findIndex_Some_ex[of "used pool" "\<lambda>q. instanceNo q = instanceNo p"] by auto
  have "spliceOne i (used pool) = remove1 p (used pool)"
    using spliceOne_remove1[OF assms(2) assms(1) i] .
  then show ?thesis using return_found[OF i, of cfg deleteFile] by simp
qed

theorem release_resets_slot_witness:
  "exampleSlot \<in> set (used examplePool) \<and> distinct (map instanceNo (used examplePool))
   \<and> used (fst (returnBrowserProfile exampleConfig examplePool exampleSlot True)) = []
   \<and> last (available (fst (returnBrowserProfile exampleConfig examplePool exampleSlot True)))
       = \<lparr> profile = ''/data/{__context__}/p01'', pid = ''/data/{__context__}/p01/pid.txt'',
           instanceNo = 1, browser = None, usedSince = None, protected = None \<rparr>"
proof -
  define R where "R = fst (returnBrowserProfile exampleConfig examplePool exampleSlot True)"
  have a: "exampleSlot \<in> set (used examplePool)" by (simp add: examplePool_def)
  have b: "distinct (map instanceNo (used examplePool))" by (simp add: examplePool_def)
  have c: "newProfile exampleConfig 1
             = \<lparr> profile = ''/data/{__context__}/p01'', pid = ''/data/{__context__}/p01/pid.txt'',
                 instanceNo = 1, browser = None, usedSince = None, protected = None \<rparr>"
    by code_simp
  have t: "used R = remove1 exampleSlot (used examplePool)"
          "last (available R)
             = exampleSlot\<lparr> profile := profile (newProfile exampleConfig (instanceNo exampleSlot)),
                             pid := pid (newProfile exampleConfig (instanceNo exampleSlot)),
                             browser := None, usedSince := None \<rparr>"
    using release_resets_slot[OF a b, of exampleConfig True] by (simp_all add: R_def)
  have u: "used R = []" using t(1) by (simp add: examplePool_def)
  have i: "instanceNo exampleSlot = 1" by (simp add: exampleSlot_def)
  have l: "last (available R)
       = \<lparr> profile = ''/data/{__context__}/p01'', pid = ''/data/{__context__}/p01/pid.txt'',
           instanceNo = 1, browser = None, usedSince = None, protected = None \<rparr>"
    unfolding t(2) i c by (simp add: exampleSlot_def)
  show ?thesis using a b u l unfolding R_def by simp
qed

text \<open>
  Counterexample to C6 as stated: slot 1 is checked out and marked protected; after
  \<open>returnBrowserProfile\<close> the slot sits in the available list with \<open>protected\<close> still true.
\<close>

theorem release_clears_protected_counterexample:
  "protected (last (available (fst (returnBrowserProfile exampleConfig
       (assignProtected 1 True examplePool) (exampleSlot\<lparr> protected := Some True \<rparr>) True))))
     = Some True
   \<and> exampleSlot\<lparr> protected := Some True \<rparr> \<in> set (used (assignProtected 1 True examplePool))"
  by (simp add: returnBrowserProfile_def assignProtected_def examplePool_def exampleSlot_def
        Let_def instanceNo_newProfile)

subsection \<open>One step of the eviction sweep\<close>

lemma evictStep_cases:
  assumes "evictStep cfg env m k p (pool, res, evs) = (pool', res', evs')"
  obtains
    (skip) "pool' = pool" "evs' = evs @ [LogProtectedSkip (instanceNo p)]"
  | (within) "pool' = pool" "evs' = evs @ [LogWithinLimit (instanceNo p)]"
  | (failed) "pool' = pool" "protected p \<noteq> Some True"
      "evs' = evs @ [ManageTabs (instanceNo p), CloseBrowser (instanceNo p),
                     LogCloseError (instanceNo p)]"
  | (released) pre where "protected p \<noteq> Some True"
      "m \<le> getProfileAgeInSeconds (clockAt env k) p"
      "pool' = fst (returnBrowserProfile cfg pool p True)"
      "evs' = evs @ pre @ [WaitMs 2000, KillIfRunning (pid p)]
                @ snd (returnBrowserProfile cfg pool p True)"
      "set pre \<subseteq> {ManageTabs (instanceNo p), CloseBrowser (instanceNo p)}"
proof (cases "m \<le> getProfileAgeInSeconds (clockAt env k) p")
  case False
  with assms within show ?thesis by (auto simp: evictStep_def Let_def)
next
  case age: True
  show ?thesis
  proof (cases "protected p = Some True")
    case True
    with assms age skip show ?thesis by (auto simp: evictStep_def Let_def)
  next
    case unprot: False
    show ?thesis
    proof (cases "browser p")
      case None
      with assms age unprot released[of "[]"] show ?thesis
        by (auto simp: evictStep_def Let_def split: prod.splits)
    next
      case (Some b)
      show ?thesis
      proof (cases "closeRaises env b")
        case True
        with assms age unprot Some failed show ?thesis by (auto simp: evictStep_def Let_def)
      next
        case False
        with assms age unprot Some
          released[of "[ManageTabs (instanceNo p), CloseBrowser (instanceNo p)]"]
        show ?thesis by (auto simp: evictStep_def Let_def split: prod.splits)
      qed
    qed
  qed
qed

lemma evictStep_used_subset:
  "set (used (fst (evictStep cfg env m k p st))) \<subseteq> set (used (fst st))"
proof -
  obtain pool res evs where st: "st = (pool, res, evs)" by (cases st)
  obtain pool' res' evs' where r: "evictStep cfg env m k p (pool, res, evs) = (pool', res', evs')"
    by (cases "evictStep cfg env m k p (pool, res, evs)")
  show ?thesis
    unfolding st r using r return_used_subset[where pool = pool and cfg = cfg and p = p and d = True]
    by (cases rule: evictStep_cases) auto
qed

lemma evictStep_available_mono:
  "set (available (fst st)) \<subseteq> set (available (fst (evictStep cfg env m k p st)))"
proof -
  obtain pool res evs where st: "st = (pool, res, evs)" by (cases st)
  obtain pool' res' evs' where r: "evictStep cfg env m k p (pool, res, evs) = (pool', res', evs')"
    by (cases "evictStep cfg env m k p (pool, res, evs)")
  show ?thesis
    unfolding st r using r return_available_mono[where pool = pool and cfg = cfg and p = p and d = True]
    by (cases rule: evictStep_cases) auto
qed

lemma evictStep_distinct:
  "distinct (map instanceNo (used (fst st))) \<Longrightarrow>
     distinct (map instanceNo (used (fst (evictStep cfg env m k p st))))"
proof -
  assume d: "distinct (map instanceNo (used (fst st)))"
  obtain pool res evs where st: "st = (pool, res, evs)" by (cases st)
  obtain pool' res' evs' where r: "evictStep cfg env m k p (pool, res, evs) = (pool', res', evs')"
    by (cases "evictStep cfg env m k p (pool, res, evs)")
  have d': "distinct (map instanceNo (used pool))" using d st by simp
  show ?thesis
    unfolding st r
    using r return_distinct[where pool = pool and cfg = cfg and p = p and d = True, OF d'] d'
    by (cases rule: evictStep_cases) auto
qed

lemma evictStep_keeps:
  "q \<in> set (used (fst st)) \<Longrightarrow> instanceNo p \<noteq> instanceNo q \<or> protected p = Some True \<Longrightarrow>
     q \<in> set (used (fst (evictStep cfg env m k p st)))"
proof -
  assume q: "q \<in> set (used (fst st))" and h: "instanceNo p \<noteq> instanceNo q \<or> protected p = Some True"
  obtain pool res evs where st: "st = (pool, res, evs)" by (cases st)
  obtain pool' res' evs' where r: "evictStep cfg env m k p (pool, res, evs) = (pool', res', evs')"
    by (cases "evictStep cfg env m k p (pool, res, evs)")
  have q': "q \<in> set (used pool)" using q st by simp
  show ?thesis
    unfolding st r
    using r return_keeps_others[where q = q and pool = pool and p = p and cfg = cfg and d = True, OF q'] q' h
    by (cases rule: evictStep_cases) auto
qed

lemma evictStep_quiet:
  assumes "instanceNo p \<noteq> i \<or> protected p = Some True"
      and "ManageTabs i \<notin> set (snd (snd st)) \<and> CloseBrowser i \<notin> set (snd (snd st))
           \<and> (\<forall>n. LogReturned i n \<notin> set (snd (snd st)))"
  shows "ManageTabs i \<notin> set (snd (snd (evictStep cfg env m k p st)))
         \<and> CloseBrowser i \<notin> set (snd (snd (evictStep cfg env m k p st)))
         \<and> (\<forall>n. LogReturned i n \<notin> set (snd (snd (evictStep cfg env m k p st))))"
proof -
  obtain pool res evs where st: "st = (pool, res, evs)" by (cases st)
  obtain pool' res' evs' where r: "evictStep cfg env m k p (pool, res, evs) = (pool', res', evs')"
    by (cases "evictStep cfg env m k p (pool, res, evs)")
  have ret: "\<And>e. e \<in> set (snd (returnBrowserProfile cfg pool p True)) \<Longrightarrow>
     e = PurgePidFile (pid p) \<or> (\<exists>n. e = LogReturned (instanceNo p) n)
       \<or> e = LogUnknownProfile (instanceNo p)"
    by (rule return_events)
  have new: "\<And>e. e \<in> set evs' \<Longrightarrow> e \<in> set evs \<or> e = LogProtectedSkip (instanceNo p)
      \<or> e = LogWithinLimit (instanceNo p) \<or> e = LogCloseError (instanceNo p)
      \<or> e = WaitMs 2000 \<or> e = KillIfRunning (pid p) \<or> e = PurgePidFile (pid p)
      \<or> e = LogUnknownProfile (instanceNo p)
      \<or> (protected p \<noteq> Some True
           \<and> (e = ManageTabs (instanceNo p) \<or> e = CloseBrowser (instanceNo p)
                \<or> (\<exists>n. e = LogReturned (instanceNo p) n)))"
  proof -
    fix e assume e: "e \<in> set evs'"
    from r show "e \<in> set evs \<or> e = LogProtectedSkip (instanceNo p)
      \<or> e = LogWithinLimit (instanceNo p) \<or> e = LogCloseError (instanceNo p)
      \<or> e = WaitMs 2000 \<or> e = KillIfRunning (pid p) \<or> e = PurgePidFile (pid p)
      \<or> e = LogUnknownProfile (instanceNo p)
      \<or> (protected p \<noteq> Some True
           \<and> (e = ManageTabs (instanceNo p) \<or> e = CloseBrowser (instanceNo p)
                \<or> (\<exists>n. e = LogReturned (instanceNo p) n)))"
    proof (cases rule: evictStep_cases)
      case skip
      with e show ?thesis by auto
    next
      case within
      with e show ?thesis by auto
    next
      case failed
      with e show ?thesis by auto
    next
      case (released pre)
      from e released(4) consider "e \<in> set evs" | "e \<in> set pre" | "e = WaitMs 2000"
        | "e = KillIfRunning (pid p)" | "e \<in> set (snd (returnBrowserProfile cfg pool p True))"
        by auto
      then show ?thesis
      proof cases
        case 2
        with released(1,5) show ?thesis by auto
      next
        case 5
        from ret[OF 5] released(1) show ?thesis by auto
      qed auto
    qed
  qed
  have "ManageTabs i \<notin> set evs'" using new[of "ManageTabs i"] assms unfolding st by auto
  moreover have "CloseBrowser i \<notin> set evs'" using new[of "CloseBrowser i"] assms unfolding st by auto
  moreover have "\<And>n. LogReturned i n \<notin> set evs'"
  proof -
    fix n show "LogReturned i n \<notin> set evs'" using new[of "LogReturned i n"] assms unfolding st by auto
  qed
  ultimately show ?thesis unfolding st r by simp
qed

lemma evictStep_evicts:
  assumes "distinct (map instanceNo (used (fst st)))" and "p \<in> set (used (fst st))"
      and "protected p \<noteq> Some True" and "m \<le> getProfileAgeInSeconds (clockAt env k) p"
      and "\<forall>b. browser p = Some b \<longrightarrow> \<not> closeRaises env b"
  shows "instanceNo p \<notin> instanceNo ` set (used (fst (evictStep cfg env m k p st)))
         \<and> p\<lparr> profile := profile (newProfile cfg (instanceNo p)),
               pid := pid (newProfile cfg (instanceNo p)),
               browser := None, usedSince := None \<rparr>
             \<in> set (available (fst (evictStep cfg env m k p st)))"
proof -
  obtain pool res evs where st: "st = (pool, res, evs)" by (cases st)
  from assms(2) obtain i where i: "findIndex (\<lambda>q. instanceNo q = instanceNo p) (used pool) = Some i"
    using findIndex_Some_ex[of "used pool" "\<lambda>q. instanceNo q = instanceNo p"] st by auto
  have step: "fst (evictStep cfg env m k p st) = fst (returnBrowserProfile cfg pool p True)"
    using assms(3,4,5) unfolding st
    by (auto simp: evictStep_def Let_def split: option.splits prod.splits)
  have "instanceNo p \<notin> instanceNo ` set (spliceOne i (used pool))"
    using spliceOne_removes_key[of instanceNo "used pool" "instanceNo p" i] assms(1) i st by simp
  then show ?thesis unfolding step return_found[OF i] by simp
qed

subsection \<open>The whole sweep\<close>

lemma closeLoop_used_subset:
  "set (used (fst (closeLoop cfg env m k ps st))) \<subseteq> set (used (fst st))"
proof (induction ps arbitrary: k st)
  case Nil
  then show ?case by simp
next
  case (Cons p ps)
  show ?case
    using Cons.IH[where st = "evictStep cfg env m k p st" and k = "Suc k"]
      evictStep_used_subset[where st = st and cfg = cfg and env = env and m = m and k = k and p = p]
    by auto
qed

lemma closeLoop_available_mono:
  "set (available (fst st)) \<subseteq> set (available (fst (closeLoop cfg env m k ps st)))"
proof (induction ps arbitrary: k st)
  case Nil
  then show ?case by simp
next
  case (Cons p ps)
  show ?case
    using Cons.IH[where st = "evictStep cfg env m k p st" and k = "Suc k"]
      evictStep_available_mono[where st = st and cfg = cfg and env = env and m = m and k = k and p = p]
    by auto
qed

lemma closeLoop_protected:
  assumes "q \<in> set (used (fst st))"
      and "\<forall>p \<in> set ps. instanceNo p \<noteq> instanceNo q \<or> protected p = Some True"
      and "ManageTabs (instanceNo q) \<notin> set (snd (snd st)) \<and> CloseBrowser (instanceNo q) \<notin> set (snd (snd st))
           \<and> (\<forall>n. LogReturned (instanceNo q) n \<notin> set (snd (snd st)))"
  shows "q \<in> set (used (fst (closeLoop cfg env m k ps st)))
         \<and> ManageTabs (instanceNo q) \<notin> set (snd (snd (closeLoop cfg env m k ps st)))
         \<and> CloseBrowser (instanceNo q) \<notin> set (snd (snd (closeLoop cfg env m k ps st)))
         \<and> (\<forall>n. LogReturned (instanceNo q) n \<notin> set (snd (snd (closeLoop cfg env m k ps st))))"
  using assms
proof (induction ps arbitrary: k st)
  case Nil
  then show ?case by simp
next
  case (Cons p ps)
  have h: "instanceNo p \<noteq> instanceNo q \<or> protected p = Some True" using Cons.prems(2) by simp
  have 1: "q \<in> set (used (fst (evictStep cfg env m k p st)))"
    using evictStep_keeps[OF Cons.prems(1) h] .
  have 2: "\<forall>p \<in> set ps. instanceNo p \<noteq> instanceNo q \<or> protected p = Some True"
    using Cons.prems(2) by simp
  have 3: "ManageTabs (instanceNo q) \<notin> set (snd (snd (evictStep cfg env m k p st)))
         \<and> CloseBrowser (instanceNo q) \<notin> set (snd (snd (evictStep cfg env m k p st)))
         \<and> (\<forall>n. LogReturned (instanceNo q) n \<notin> set (snd (snd (evictStep cfg env m k p st))))"
    using evictStep_quiet[OF h Cons.prems(3)] .
  show ?case using Cons.IH[OF 1 2 3] by simp
qed

lemma closeLoop_evicts:
  assumes "distinct (map instanceNo (used (fst st)))" and "distinct (map instanceNo ps)"
      and "j < length ps" and "ps ! j \<in> set (used (fst st))"
      and "protected (ps ! j) \<noteq> Some True"
      and "m \<le> getProfileAgeInSeconds (clockAt env (k + j)) (ps ! j)"
      and "\<forall>b. browser (ps ! j) = Some b \<longrightarrow> \<not> closeRaises env b"
  shows "instanceNo (ps ! j) \<notin> instanceNo ` set (used (fst (closeLoop cfg env m k ps st)))
         \<and> (ps ! j)\<lparr> profile := profile (newProfile cfg (instanceNo (ps ! j))),
               pid := pid (newProfile cfg (instanceNo (ps ! j))),
               browser := None, usedSince := None \<rparr>
             \<in> set (available (fst (closeLoop cfg env m k ps st)))"
  using assms
proof (induction ps arbitrary: k st j)
  case Nil
  then show ?case by simp
next
  case (Cons p ps)
  show ?case
  proof (cases j)
    case 0
    have e: "instanceNo p \<notin> instanceNo ` set (used (fst (evictStep cfg env m k p st)))
         \<and> p\<lparr> profile := profile (newProfile cfg (instanceNo p)),
               pid := pid (newProfile cfg (instanceNo p)),
               browser := None, usedSince := None \<rparr>
             \<in> set (available (fst (evictStep cfg env m k p st)))"
      using evictStep_evicts[where st = st and p = p and env = env and m = m and k = k and cfg = cfg]
        Cons.prems 0 by simp
    show ?thesis
      using e closeLoop_used_subset[where cfg = cfg and env = env and m = m and k = "Suc k"
            and ps = ps and st = "evictStep cfg env m k p st"]
        closeLoop_available_mono[where cfg = cfg and env = env and m = m and k = "Suc k"
            and ps = ps and st = "evictStep cfg env m k p st"] 0
      by auto
  next
    case (Suc j')
    have ne: "instanceNo p \<noteq> instanceNo (ps ! j')"
      using Cons.prems(2,3) Suc by auto
    have 1: "distinct (map instanceNo (used (fst (evictStep cfg env m k p st))))"
      using evictStep_distinct[OF Cons.prems(1)] .
    have 4: "ps ! j' \<in> set (used (fst (evictStep cfg env m k p st)))"
      using evictStep_keeps[where q = "ps ! j'" and st = st and p = p and cfg = cfg and env = env
            and m = m and k = k] Cons.prems(4) Suc ne by simp
    show ?thesis
      using Cons.IH[where st = "evictStep cfg env m k p st" and j = j' and k = "Suc k", OF 1 _ _ 4]
        Cons.prems Suc
      by simp
  qed
qed

text \<open>
  What one sweep does, in a pool whose checked-out slots have distinct instance numbers.
  Every checked-out slot whose \<open>protected\<close> flag is true stays in the used list, whatever
  its age, the clock readings and the outcome of closing other browsers: its tabs are not
  touched, its browser is not closed and it is not returned. An unprotected slot whose
  age, read when the sweep reaches it, is at least the threshold leaves the used list and
  is back in the available list with the process fields cleared, on the path where it has
  no browser handle or \<open>browser.close()\<close> resolves.
\<close>

lemma sweep_protected_kept_closed_evicted:
  assumes "distinct (map instanceNo (used pool))"
  shows "(\<forall>q \<in> set (used pool). protected q = Some True \<longrightarrow>
            q \<in> set (used (fst (forceCloseBrowsersOlderThan cfg env maxTimeSeconds pool)))
            \<and> ManageTabs (instanceNo q)
                 \<notin> set (snd (snd (forceCloseBrowsersOlderThan cfg env maxTimeSeconds pool)))
            \<and> CloseBrowser (instanceNo q)
                 \<notin> set (snd (snd (forceCloseBrowsersOlderThan cfg env maxTimeSeconds pool)))
            \<and> (\<forall>n. LogReturned (instanceNo q) n
                 \<notin> set (snd (snd (forceCloseBrowsersOlderThan cfg env maxTimeSeconds pool)))))
       \<and> (\<forall>k < length (used pool).
            protected (used pool ! k) \<noteq> Some True
            \<and> maxTimeSeconds \<le> getProfileAgeInSeconds (clockAt env k) (used pool ! k)
            \<and> (\<forall>b. browser (used pool ! k) = Some b \<longrightarrow> \<not> closeRaises env b)
            \<longrightarrow> instanceNo (used pool ! k)
                  \<notin> instanceNo ` set (used (fst (forceCloseBrowsersOlderThan cfg env maxTimeSeconds pool)))
                \<and> (used pool ! k)\<lparr> profile := profile (newProfile cfg (instanceNo (used pool ! k))),
                                    pid := pid (newProfile cfg (instanceNo (used pool ! k))),
                                    browser := None, usedSince := None \<rparr>
                  \<in> set (available (fst (forceCloseBrowsersOlderThan cfg env maxTimeSeconds pool))))"
proof (cases "used pool = []")
  case True
  then show ?thesis by simp
next
  case False
  let ?st = "(pool, \<lparr> processedCount = 0, closedCount = 0 \<rparr>, [])"
  have F: "forceCloseBrowsersOlderThan cfg env maxTimeSeconds pool
             = closeLoop cfg env maxTimeSeconds 0 (used pool) ?st"
    using False by (simp add: forceCloseBrowsersOlderThan_def)
  have prot: "\<And>q. q \<in> set (used pool) \<Longrightarrow> protected q = Some True \<Longrightarrow>
            q \<in> set (used (fst (closeLoop cfg env maxTimeSeconds 0 (used pool) ?st)))
            \<and> ManageTabs (instanceNo q)
                 \<notin> set (snd (snd (closeLoop cfg env maxTimeSeconds 0 (used pool) ?st)))
            \<and> CloseBrowser (instanceNo q)
                 \<notin> set (snd (snd (closeLoop cfg env maxTimeSeconds 0 (used pool) ?st)))
            \<and> (\<forall>n. LogReturned (instanceNo q) n
                 \<notin> set (snd (snd (closeLoop cfg env maxTimeSeconds 0 (used pool) ?st))))"
  proof -
    fix q assume q: "q \<in> set (used pool)" and pq: "protected q = Some True"
    have same: "\<forall>p \<in> set (used pool). instanceNo p \<noteq> instanceNo q \<or> protected p = Some True"
    proof
      fix p assume p: "p \<in> set (used pool)"
      show "instanceNo p \<noteq> instanceNo q \<or> protected p = Some True"
      proof (cases "instanceNo p = instanceNo q")
        case True
        then have "p = q" using assms p q by (meson distinct_map inj_onD)
        then show ?thesis using pq by simp
      qed simp
    qed
    show "q \<in> set (used (fst (closeLoop cfg env maxTimeSeconds 0 (used pool) ?st)))
            \<and> ManageTabs (instanceNo q)
                 \<notin> set (snd (snd (closeLoop cfg env maxTimeSeconds 0 (used pool) ?st)))
            \<and> CloseBrowser (instanceNo q)
                 \<notin> set (snd (snd (closeLoop cfg env maxTimeSeconds 0 (used pool) ?st)))
            \<and> (\<forall>n. LogReturned (instanceNo q) n
                 \<notin> set (snd (snd (closeLoop cfg env maxTimeSeconds 0 (used pool) ?st))))"
      by (rule closeLoop_protected) (use q same in simp_all)
  qed
  have evict: "\<And>k. k < length (used pool) \<Longrightarrow> protected (used pool ! k) \<noteq> Some True \<Longrightarrow>
            maxTimeSeconds \<le> getProfileAgeInSeconds (clockAt env k) (used pool ! k) \<Longrightarrow>
            (\<forall>b. browser (used pool ! k) = Some b \<longrightarrow> \<not> closeRaises env b) \<Longrightarrow>
            instanceNo (used pool ! k)
                  \<notin> instanceNo ` set (used (fst (closeLoop cfg env maxTimeSeconds 0 (used pool) ?st)))
                \<and> (used pool ! k)\<lparr> profile := profile (newProfile cfg (instanceNo (used pool ! k))),
                                    pid := pid (newProfile cfg (instanceNo (used pool ! k))),
                                    browser := None, usedSince := None \<rparr>
                  \<in> set (available (fst (closeLoop cfg env maxTimeSeconds 0 (used pool) ?st)))"
    by (rule closeLoop_evicts) (use assms in simp_all)
  show ?thesis unfolding F using prot evict by blast
qed

lemma examplePool_sweep_facts:
  "distinct (map instanceNo (used examplePool))"
  "used examplePool = [exampleSlot]"
  "distinct (map instanceNo (used (assignProtected 1 True examplePool)))"
  "used (assignProtected 1 True examplePool) = [exampleSlot\<lparr> protected := Some True \<rparr>]"
  "getProfileAgeInSeconds (clockAt calmSweep 0) exampleSlot = 20"
  "getProfileAgeInSeconds (clockAt calmSweep 0) (exampleSlot\<lparr> protected := Some True \<rparr>) = 20"
  "browser exampleSlot = Some 7" "protected exampleSlot = None" "instanceNo exampleSlot = 1"
  "\<not> closeRaises calmSweep 7"
  by (simp_all add: examplePool_def assignProtected_def exampleSlot_def calmSweep_def
        getProfileAgeInSeconds_def instanceNo_newProfile)

lemma sweep_on_example_pool:
  "distinct (map instanceNo (used examplePool))
   \<and> getProfileAgeInSeconds (clockAt calmSweep 0) exampleSlot = 20
   \<and> 1 \<notin> instanceNo ` set (used (fst (forceCloseBrowsersOlderThan exampleConfig calmSweep 15 examplePool)))
   \<and> exampleSlot\<lparr> protected := Some True \<rparr>
        \<in> set (used (fst (forceCloseBrowsersOlderThan exampleConfig calmSweep 15
                            (assignProtected 1 True examplePool))))
   \<and> CloseBrowser 1
        \<notin> set (snd (snd (forceCloseBrowsersOlderThan exampleConfig calmSweep 15
                            (assignProtected 1 True examplePool))))"
proof -
  note f = examplePool_sweep_facts
  have a: "1 \<notin> instanceNo ` set (used (fst (forceCloseBrowsersOlderThan exampleConfig calmSweep 15 examplePool)))"
    using sweep_protected_kept_closed_evicted[OF f(1), of exampleConfig calmSweep 15] f(2,5,7,8,9,10)
    by simp
  have b: "exampleSlot\<lparr> protected := Some True \<rparr>
        \<in> set (used (fst (forceCloseBrowsersOlderThan exampleConfig calmSweep 15
                            (assignProtected 1 True examplePool))))
       \<and> CloseBrowser 1
        \<notin> set (snd (snd (forceCloseBrowsersOlderThan exampleConfig calmSweep 15
                            (assignProtected 1 True examplePool))))"
    using sweep_protected_kept_closed_evicted[OF f(3), of exampleConfig calmSweep 15] f(4,9)
    by simp
  show ?thesis using a b f(1,5) by simp
qed

text \<open>
  Claim C2 on the code. Slot 1 is checked out, unprotected and 20 s old against a
  threshold of 15 s. When \<open>browser.close()\<close> resolves, the sweep evicts it; when it rejects,
  the \<open>try \<dots> finally\<close> around the call lets the error through to the outer \<open>catch\<close>, the
  release is skipped, and after the sweep the slot is still checked out with nothing added
  to the available list. Marked protected, the same slot is kept and its browser is not
  closed.
\<close>

theorem rejected_close_leaves_slot_checked_out:
  "protected exampleSlot = None
   \<and> getProfileAgeInSeconds (clockAt failingSweep 0) exampleSlot = 20
   \<and> exampleSlot \<in> set (used (fst (forceCloseBrowsersOlderThan exampleConfig failingSweep 15 examplePool)))
   \<and> available (fst (forceCloseBrowsersOlderThan exampleConfig failingSweep 15 examplePool))
       = available examplePool
   \<and> closedCount (fst (snd (forceCloseBrowsersOlderThan exampleConfig failingSweep 15 examplePool))) = 0
   \<and> used (fst (forceCloseBrowsersOlderThan exampleConfig calmSweep 15 examplePool)) = []
   \<and> closedCount (fst (snd (forceCloseBrowsersOlderThan exampleConfig calmSweep 15 examplePool))) = 1
   \<and> used (fst (forceCloseBrowsersOlderThan exampleConfig failingSweep 15
               (assignProtected 1 True examplePool)))
       = [exampleSlot\<lparr> protected := Some True \<rparr>]"
  by (simp add: forceCloseBrowsersOlderThan_def evictStep_def examplePool_def exampleSlot_def
        failingSweep_def calmSweep_def getProfileAgeInSeconds_def Let_def
        returnBrowserProfile_def spliceOne_def assignProtected_def instanceNo_newProfile)

subsection \<open>Instance numbers stay distinct\<close>

lemma initPool_distinct:
  "distinct (map instanceNo (available (initPool cfg) @ used (initPool cfg)))"
proof -
  have "map instanceNo (map (newProfile cfg) xs) = xs" for xs
    by (induction xs) (simp_all add: instanceNo_newProfile)
  then show ?thesis by (simp add: initPool_def)
qed

lemma get_distinct:
  assumes "distinct (map instanceNo (available pool @ used pool))"
  shows "distinct (map instanceNo (available (fst (snd (getBrowserProfile now c pool)))
                                    @ used (fst (snd (getBrowserProfile now c pool)))))"
  using assms by (cases "available pool") (auto simp: getBrowserProfile_def Let_def)

lemma return_distinct_all:
  assumes "distinct (map instanceNo (available pool @ used pool))"
  shows "distinct (map instanceNo (available (fst (returnBrowserProfile cfg pool p d))
                                    @ used (fst (returnBrowserProfile cfg pool p d))))"
proof (cases "findIndex (\<lambda>q. instanceNo q = instanceNo p) (used pool)")
  case None
  with assms show ?thesis by (simp add: returnBrowserProfile_def)
next
  case (Some i)
  have du: "distinct (map instanceNo (used pool))" and da: "distinct (map instanceNo (available pool))"
    and dj: "instanceNo ` set (available pool) \<inter> instanceNo ` set (used pool) = {}"
    using assms by auto
  have inu: "instanceNo p \<in> instanceNo ` set (used pool)"
    using findIndex_Some_nth[OF Some] findIndex_Some_less[OF Some]
    by (metis (mono_tags, lifting) image_eqI nth_mem)
  have 1: "instanceNo p \<notin> instanceNo ` set (available pool)" using inu dj by auto
  have 2: "instanceNo p \<notin> instanceNo ` set (spliceOne i (used pool))"
    using spliceOne_removes_key[OF du Some] .
  have 3: "distinct (map instanceNo (spliceOne i (used pool)))"
    using distinct_map_spliceOne[OF du] .
  have 4: "instanceNo ` set (available pool) \<inter> instanceNo ` set (spliceOne i (used pool)) = {}"
    using dj set_spliceOne_subset[of i "used pool"] by auto
  show ?thesis unfolding return_found[OF Some] using da 1 2 3 4 by auto
qed

lemma runOps_distinct:
  "distinct (map instanceNo (available (runOps cfg ops) @ used (runOps cfg ops)))"
proof (induction ops rule: rev_induct)
  case Nil
  show ?case using initPool_distinct[of cfg] by (simp add: runOps_def)
next
  case (snoc op ops)
  have step: "runOps cfg (ops @ [op]) = applyOp cfg (runOps cfg ops) op"
    by (simp add: runOps_def)
  show ?case unfolding step
    using snoc get_distinct[of "runOps cfg ops"] return_distinct_all[of "runOps cfg ops" cfg]
    by (cases op) simp_all
qed

lemma assign_keeps_instances:
  "map instanceNo (used (assignProtected i b pool)) = map instanceNo (used pool)"
  "map instanceNo (available (assignProtected i b pool)) = map instanceNo (available pool)"
  "map instanceNo (used (assignBrowser i h pool)) = map instanceNo (used pool)"
  "map instanceNo (available (assignBrowser i h pool)) = map instanceNo (available pool)"
  by (simp_all add: assignProtected_def assignBrowser_def Let_def comp_def)

lemma available_slot_not_used:
  "distinct (map instanceNo (available pool @ used pool)) \<Longrightarrow> p \<in> set (available pool) \<Longrightarrow>
     instanceNo p \<notin> instanceNo ` set (used pool)"
  by auto

section \<open>Properties of waitRandomTime\<close>

text \<open>
  Claim C10. For \<open>minMs \<le> maxMs\<close> the function waits exactly \<open>minMs\<close> and draws no random
  number; a random number is drawn exactly when the arguments are reversed
  (\<open>minMs > maxMs\<close>).
\<close>

theorem waitRandomTime_waits_minimum:
  "(minMs \<le> maxMs \<longrightarrow> waitRandomTime random n minMs maxMs = (minMs, n))
   \<and> (snd (waitRandomTime random n minMs maxMs) \<noteq> n \<longleftrightarrow> maxMs < minMs)"
  by (simp add: waitRandomTime_def)

theorem waitRandomTime_waits_minimum_witness:
  "(2000 :: real) \<le> 3000 \<and> waitRandomTime (\<lambda>k. 1 / 2) 0 2000 3000 = (2000, 0)
   \<and> snd (waitRandomTime (\<lambda>k. 1 / 2) 0 5 3) = 1
   \<and> fst (waitRandomTime (\<lambda>k. 1 / 2) 0 5 3) = 4"
proof -
  have a: "waitRandomTime (\<lambda>k. 1 / 2) 0 2000 3000 = (2000, 0)"
    using waitRandomTime_waits_minimum[of 2000 3000 "\<lambda>k. 1 / 2" 0] by simp
  have c: "waitRandomTime (\<lambda>k. 1 / 2) 0 5 3 = (4, 1)"
  proof -
    have "\<lfloor>(3 :: real) / 2\<rfloor> = 1" by linarith
    then show ?thesis by (simp add: waitRandomTime_def)
  qed
  show ?thesis unfolding a c by simp
qed

section \<open>Properties of the tracker\<close>

lemma set_foldl_dedupe:
  "set (foldl (\<lambda>acc x. if x \<in> set acc then acc else acc @ [x]) acc xs) = set acc \<union> set xs"
  by (induction xs arbitrary: acc) auto

lemma set_dedupe: "set (dedupe xs) = set xs"
  by (simp add: dedupe_def set_foldl_dedupe)

lemma foldl_notFound_disjoint:
  "set nf \<inter> P = {} \<Longrightarrow>
     set (foldl (\<lambda>nf c. if c \<notin> P \<and> c \<notin> set nf then nf @ [c] else nf) nf cs) \<inter> P = {}"
  by (induction cs arbitrary: nf) auto

lemma updateTracking_valid: "valid (updateTracking sr t) = valid t"
  by (simp add: updateTracking_def Let_def)

lemma updateTracking_processed:
  "set (processed (updateTracking sr t)) = set (processed t) \<union> set (resultProcessed sr)"
  by (simp add: updateTracking_def Let_def set_dedupe)

lemma updateTracking_disjoint:
  "set (processed (updateTracking sr t)) \<inter> set (notFound (updateTracking sr t)) = {}"
proof -
  let ?P = "set (dedupe (processed t @ resultProcessed sr))"
  have "set (filter (\<lambda>code. code \<notin> ?P) (notFound t)) \<inter> ?P = {}" by auto
  from foldl_notFound_disjoint[OF this, of "resultNotFound sr"]
  show ?thesis by (simp add: updateTracking_def Let_def Int_commute)
qed

text \<open>The search only ever appends to the tracker's \<open>processed\<close> list.\<close>

lemma markProcessed_appends:
  "\<exists>extra. markProcessed c T = map_option (\<lambda>t. t\<lparr> processed := processed t @ extra \<rparr>) T"
proof (cases T)
  case None
  then show ?thesis by (simp add: markProcessed_def)
next
  case (Some t)
  show ?thesis
  proof (cases "c \<in> set (processed t)")
    case True
    then have "markProcessed c T = map_option (\<lambda>t. t\<lparr> processed := processed t @ [] \<rparr>) T"
      using Some by (simp add: markProcessed_def)
    then show ?thesis by blast
  next
    case False
    then have "markProcessed c T = map_option (\<lambda>t. t\<lparr> processed := processed t @ [c] \<rparr>) T"
      using Some by (simp add: markProcessed_def)
    then show ?thesis by blast
  qed
qed

lemma appends_trans:
  assumes "T1 = map_option (\<lambda>t. t\<lparr> processed := processed t @ e1 \<rparr>) T0"
      and "T2 = map_option (\<lambda>t. t\<lparr> processed := processed t @ e2 \<rparr>) T1"
  shows "T2 = map_option (\<lambda>t. t\<lparr> processed := processed t @ (e1 @ e2) \<rparr>) T0"
  using assms by (cases T0) simp_all

lemma rowsLoop_appends:
  "\<exists>extra. orderCodeTracking (globals (snd (rowsLoop c u rows st)))
      = map_option (\<lambda>t. t\<lparr> processed := processed t @ extra \<rparr>) (orderCodeTracking (globals st))"
proof (induction c u rows st rule: rowsLoop.induct)
  case (1 c u st)
  have "orderCodeTracking (globals st)
          = map_option (\<lambda>t. t\<lparr> processed := processed t @ [] \<rparr>) (orderCodeTracking (globals st))"
    by (cases "orderCodeTracking (globals st)") simp_all
  then show ?case by (intro exI[of _ "[]"]) simp
next
  case (2 c u rows st)
  then show ?case by simp
next
  case (3 c u rows st)
  then show ?case by simp
next
  case (4 c u code now page backRaises rows st)
  define st' where "st' = st\<lparr> clickedCodes := clickedCodes st @ [c],
                   processedCodes := processedCodes st @ [c],
                   globals := (globals st)\<lparr> orderCodeTracking := markProcessed c (orderCodeTracking (globals st)),
                                orderResults := orderResults (globals st)
                                  @ [newOrderResult code u now (checkForDeliveryIssue page)] \<rparr> \<rparr>"
  obtain e1 where e1: "orderCodeTracking (globals st')
      = map_option (\<lambda>t. t\<lparr> processed := processed t @ e1 \<rparr>) (orderCodeTracking (globals st))"
    using markProcessed_appends[of c "orderCodeTracking (globals st)"] by (auto simp: st'_def)
  show ?case
  proof (cases backRaises)
    case False
    then have "snd (rowsLoop c u (RowOpened code now page backRaises # rows) st) = st'"
      by (simp add: st'_def Let_def)
    with e1 show ?thesis by (intro exI[of _ e1]) simp
  next
    case True
    then have r: "snd (rowsLoop c u (RowOpened code now page backRaises # rows) st)
                = snd (rowsLoop c u rows st')"
      by (simp add: st'_def Let_def)
    from 4[OF refl refl st'_def True]
    obtain e2 where e2: "orderCodeTracking (globals (snd (rowsLoop c u rows st')))
      = map_option (\<lambda>t. t\<lparr> processed := processed t @ e2 \<rparr>) (orderCodeTracking (globals st'))"
      by blast
    from appends_trans[OF e1 e2] show ?thesis unfolding r by (intro exI[of _ "e1 @ e2"])
  qed
qed

lemma appends_refl: "T = map_option (\<lambda>t. t\<lparr> processed := processed t @ [] \<rparr>) T"
  by (cases T) simp_all

lemma searchOneCode_appends:
  "\<exists>extra. orderCodeTracking (globals (searchOneCode found c u st))
      = map_option (\<lambda>t. t\<lparr> processed := processed t @ extra \<rparr>) (orderCodeTracking (globals st))"
proof (cases found)
  case (Rows rows)
  obtain f st' where r: "rowsLoop c u rows st = (f, st')" by (cases "rowsLoop c u rows st")
  have "globals (searchOneCode found c u st) = globals st'"
    using Rows r by (simp add: searchOneCode_def)
  moreover have "st' = snd (rowsLoop c u rows st)" using r by simp
  ultimately show ?thesis using rowsLoop_appends[of c u rows st] by simp
next
  case SearchInputMissing
  then have "globals (searchOneCode found c u st) = globals st" by (simp add: searchOneCode_def)
  then show ?thesis using appends_refl[of "orderCodeTracking (globals st)"] by (intro exI[of _ "[]"]) simp
next
  case NoResults
  then have "globals (searchOneCode found c u st) = globals st" by (simp add: searchOneCode_def)
  then show ?thesis using appends_refl[of "orderCodeTracking (globals st)"] by (intro exI[of _ "[]"]) simp
next
  case SearchRaises
  then have "globals (searchOneCode found c u st) = globals st" by (simp add: searchOneCode_def)
  then show ?thesis using appends_refl[of "orderCodeTracking (globals st)"] by (intro exI[of _ "[]"]) simp
qed

lemma codesLoop_appends:
  "\<exists>extra. orderCodeTracking (globals (codesLoop search ap u k codes st))
      = map_option (\<lambda>t. t\<lparr> processed := processed t @ extra \<rparr>) (orderCodeTracking (globals st))"
proof (induction codes arbitrary: k st)
  case Nil
  show ?case using appends_refl[of "orderCodeTracking (globals st)"] by (intro exI[of _ "[]"]) simp
next
  case (Cons c codes)
  define st1 where "st1 = (if c \<in> set ap then st else searchOneCode (search k) c u st)"
  have "\<exists>e1. orderCodeTracking (globals st1)
      = map_option (\<lambda>t. t\<lparr> processed := processed t @ e1 \<rparr>) (orderCodeTracking (globals st))"
  proof (cases "c \<in> set ap")
    case True
    then have "st1 = st" by (simp add: st1_def)
    then show ?thesis using appends_refl[of "orderCodeTracking (globals st)"]
      by (intro exI[of _ "[]"]) simp
  next
    case False
    then have "st1 = searchOneCode (search k) c u st" by (simp add: st1_def)
    then show ?thesis using searchOneCode_appends[of "search k" c u st] by simp
  qed
  then obtain e1 where e1: "orderCodeTracking (globals st1)
      = map_option (\<lambda>t. t\<lparr> processed := processed t @ e1 \<rparr>) (orderCodeTracking (globals st))"
    by blast
  obtain e2 where e2: "orderCodeTracking (globals (codesLoop search ap u (Suc k) codes st1))
      = map_option (\<lambda>t. t\<lparr> processed := processed t @ e2 \<rparr>) (orderCodeTracking (globals st1))"
    using Cons.IH[of "Suc k" st1] by blast
  have eq: "codesLoop search ap u k (c # codes) st = codesLoop search ap u (Suc k) codes st1"
    by (simp add: st1_def)
  show ?case unfolding eq using appends_trans[OF e1 e2] by (intro exI[of _ "e1 @ e2"])
qed

lemma searchAndClick_appends:
  "\<exists>extra. orderCodeTracking (snd (searchAndClickOrderCodes search codes u g))
      = map_option (\<lambda>t. t\<lparr> processed := processed t @ extra \<rparr>) (orderCodeTracking g)"
proof -
  let ?ap = "case orderCodeTracking g of None \<Rightarrow> [] | Some t \<Rightarrow> processed t"
  let ?st = "\<lparr> clickedCodes = [], notFoundCodes = [], processedCodes = [], globals = g \<rparr>"
  have "snd (searchAndClickOrderCodes search codes u g)
          = globals (codesLoop search ?ap u 0 (map (\<lambda>code. toUpperCase (trim code)) codes) ?st)"
    by (simp add: searchAndClickOrderCodes_def Let_def)
  then show ?thesis
    using codesLoop_appends[of search ?ap u 0 "map (\<lambda>code. toUpperCase (trim code)) codes" ?st]
    by simp
qed

text \<open>What one account's pass does to the tracker.\<close>

lemma accountPass_tracking:
  "orderCodeTracking (runGlobals (accountPass st a)) = orderCodeTracking (runGlobals st)
   \<or> (\<exists>sr extra. orderCodeTracking (runGlobals (accountPass st a))
          = map_option (\<lambda>t. updateTracking sr (t\<lparr> processed := processed t @ extra \<rparr>))
              (orderCodeTracking (runGlobals st)))"
proof (cases a)
  case (Pair username run)
  show ?thesis
  proof (cases run)
    case NotReached
    with Pair show ?thesis by (simp add: accountPass_def)
  next
    case (Reached codes search)
    let ?ap = "case orderCodeTracking (runGlobals st) of None \<Rightarrow> [] | Some t \<Rightarrow> processed t"
    let ?todo = "filter (\<lambda>code. code \<notin> set ?ap) (map (\<lambda>code. toUpperCase (trim code)) codes)"
    show ?thesis
    proof (cases "codes = [] \<or> ?todo = []")
      case True
      with Pair Reached show ?thesis by (auto simp: accountPass_def Let_def)
    next
      case False
      obtain sr g where r: "searchAndClickOrderCodes search ?todo (Some username) (runGlobals st) = (sr, g)"
        by (cases "searchAndClickOrderCodes search ?todo (Some username) (runGlobals st)")
      obtain extra where e: "orderCodeTracking g
          = map_option (\<lambda>t. t\<lparr> processed := processed t @ extra \<rparr>) (orderCodeTracking (runGlobals st))"
        using searchAndClick_appends[of search ?todo "Some username" "runGlobals st"] r by auto
      have "orderCodeTracking (runGlobals (accountPass st a))
              = map_option (updateTracking sr) (orderCodeTracking g)"
        using Pair Reached False r by (simp add: accountPass_def Let_def)
      then have "orderCodeTracking (runGlobals (accountPass st a))
          = map_option (\<lambda>t. updateTracking sr (t\<lparr> processed := processed t @ extra \<rparr>))
              (orderCodeTracking (runGlobals st))"
        unfolding e by (simp add: option.map_comp comp_def)
      then show ?thesis by blast
    qed
  qed
qed

lemma accountPass_invariant:
  assumes "orderCodeTracking (runGlobals st) = Some t"
  shows "\<exists>t'. orderCodeTracking (runGlobals (accountPass st a)) = Some t'
           \<and> valid t' = valid t
           \<and> set (processed t) \<subseteq> set (processed t')
           \<and> (set (processed t) \<inter> set (notFound t) = {}
                \<longrightarrow> set (processed t') \<inter> set (notFound t') = {})"
  using accountPass_tracking[of st a]
proof
  assume "orderCodeTracking (runGlobals (accountPass st a)) = orderCodeTracking (runGlobals st)"
  with assms show ?thesis by simp
next
  assume "\<exists>sr extra. orderCodeTracking (runGlobals (accountPass st a))
          = map_option (\<lambda>t. updateTracking sr (t\<lparr> processed := processed t @ extra \<rparr>))
              (orderCodeTracking (runGlobals st))"
  then obtain sr extra where
    "orderCodeTracking (runGlobals (accountPass st a))
       = Some (updateTracking sr (t\<lparr> processed := processed t @ extra \<rparr>))"
    using assms by auto
  then show ?thesis
    using updateTracking_disjoint[of sr "t\<lparr> processed := processed t @ extra \<rparr>"]
    by (auto simp: updateTracking_valid updateTracking_processed)
qed

lemma accountPass_undefined:
  "orderCodeTracking (runGlobals st) = None \<Longrightarrow>
     orderCodeTracking (runGlobals (accountPass st a)) = None"
  using accountPass_tracking[of st a] by auto

lemma runAccounts_invariant:
  "(case orderCodeTracking (runGlobals (runAccounts allOrderCodes accounts)) of
      None \<Rightarrow> allOrderCodes = []
    | Some t \<Rightarrow> allOrderCodes \<noteq> []
        \<and> valid t = map (\<lambda>code. toUpperCase (trim code)) allOrderCodes
        \<and> set (processed t) \<inter> set (notFound t) = {})"
proof (induction accounts rule: rev_induct)
  case Nil
  then show ?case by (simp add: runAccounts_def startRun_def initTracking_def)
next
  case (snoc a accounts)
  let ?st = "runAccounts allOrderCodes accounts"
  have step: "runAccounts allOrderCodes (accounts @ [a]) = accountPass ?st a"
    by (simp add: runAccounts_def)
  show ?case
  proof (cases "orderCodeTracking (runGlobals ?st)")
    case None
    with snoc accountPass_undefined[OF None, of a] show ?thesis unfolding step by simp
  next
    case (Some t)
    with snoc accountPass_invariant[OF Some, of a] show ?thesis unfolding step by auto
  qed
qed

lemma finishRun_tracking:
  "orderCodeTracking (runGlobals st) = Some t \<Longrightarrow>
     orderCodeTracking (runGlobals (finishRun st))
       = Some (t\<lparr> notFound := filter (\<lambda>code. code \<notin> set (processed t)) (notFound t) \<rparr>)"
  by (simp add: finishRun_def)

text \<open>
  Claim C3 (tracker partition invariant). Take any universe of order codes and any
  sequence of account passes (whatever each account's searches return). After every
  pass the global \<open>processed\<close> and \<open>notFound\<close> lists have no code in common and \<open>valid\<close> is
  still the normalised universe set at the start; one more pass \<open>a\<close> only adds to
  \<open>processed\<close> and again leaves the two lists disjoint; and the summary at the end of the
  run keeps \<open>processed\<close> and \<open>valid\<close> and leaves the lists disjoint. When the universe is
  empty the tracker is never created.
\<close>

theorem tracker_partition_invariant:
  "(case orderCodeTracking (runGlobals (runAccounts allOrderCodes accounts)) of
      None \<Rightarrow> allOrderCodes = []
    | Some t \<Rightarrow>
        set (processed t) \<inter> set (notFound t) = {}
        \<and> valid t = map (\<lambda>code. toUpperCase (trim code)) allOrderCodes
        \<and> (case orderCodeTracking (runGlobals (runAccounts allOrderCodes (accounts @ [a]))) of
             None \<Rightarrow> False
           | Some t' \<Rightarrow> set (processed t) \<subseteq> set (processed t') \<and> valid t' = valid t
               \<and> set (processed t') \<inter> set (notFound t') = {})
        \<and> (case orderCodeTracking (runGlobals (finishRun (runAccounts allOrderCodes accounts))) of
             None \<Rightarrow> False
           | Some t' \<Rightarrow> processed t' = processed t \<and> valid t' = valid t
               \<and> set (processed t') \<inter> set (notFound t') = {}))"
proof (cases "orderCodeTracking (runGlobals (runAccounts allOrderCodes accounts))")
  case None
  with runAccounts_invariant[of allOrderCodes accounts] show ?thesis by simp
next
  case (Some t)
  have inv: "set (processed t) \<inter> set (notFound t) = {}"
            "valid t = map (\<lambda>code. toUpperCase (trim code)) allOrderCodes"
    using runAccounts_invariant[of allOrderCodes accounts] Some by simp_all
  have step: "runAccounts allOrderCodes (accounts @ [a])
                = accountPass (runAccounts allOrderCodes accounts) a"
    by (simp add: runAccounts_def)
  obtain t' where t': "orderCodeTracking (runGlobals (runAccounts allOrderCodes (accounts @ [a]))) = Some t'"
      "valid t' = valid t" "set (processed t) \<subseteq> set (processed t')"
      "set (processed t') \<inter> set (notFound t') = {}"
    using accountPass_invariant[OF Some, of a] inv(1) unfolding step by blast
  have fin: "orderCodeTracking (runGlobals (finishRun (runAccounts allOrderCodes accounts)))
       = Some (t\<lparr> notFound := filter (\<lambda>code. code \<notin> set (processed t)) (notFound t) \<rparr>)"
    using finishRun_tracking[OF Some] .
  have disj: "set (processed t) \<inter> set (filter (\<lambda>code. code \<notin> set (processed t)) (notFound t)) = {}"
    by auto
  show ?thesis unfolding Some fin t'(1) using inv t'(2,3,4) disj by simp
qed

lemma exampleAccounts_result:
  "orderCodeTracking (runGlobals (runAccounts [''a'', ''b'', ''c''] exampleAccounts))
     = Some \<lparr> valid = [''A'', ''B'', ''C''], processed = [''A'', ''B'', ''C''], notFound = [] \<rparr>"
  by code_simp

lemma exampleAccounts_first_pass:
  "orderCodeTracking (runGlobals (runAccounts [''a'', ''b'', ''c''] (butlast exampleAccounts)))
     = Some \<lparr> valid = [''A'', ''B'', ''C''], processed = [''A'', ''B''], notFound = [''C''] \<rparr>"
  by code_simp

theorem tracker_partition_invariant_witness:
  "orderCodeTracking (runGlobals (runAccounts [''a'', ''b'', ''c''] (butlast exampleAccounts)))
     = Some \<lparr> valid = [''A'', ''B'', ''C''], processed = [''A'', ''B''], notFound = [''C''] \<rparr>
   \<and> orderCodeTracking (runGlobals (runAccounts [''a'', ''b'', ''c''] exampleAccounts))
     = Some \<lparr> valid = [''A'', ''B'', ''C''], processed = [''A'', ''B'', ''C''], notFound = [] \<rparr>"
proof -
  have split: "butlast exampleAccounts @ [last exampleAccounts] = exampleAccounts"
    by (simp add: exampleAccounts_def)
  show ?thesis
    using tracker_partition_invariant[of "[''a'', ''b'', ''c'']" "butlast exampleAccounts"
        "last exampleAccounts"]
    unfolding split exampleAccounts_first_pass exampleAccounts_result
    by simp
qed

section \<open>Properties of the classification\<close>

lemma checkForDeliveryIssue_fail_open:
  "finalIssueText page = Raises \<or> finalIssueText page = Returns None \<Longrightarrow>
     checkForDeliveryIssue page = \<lparr> hasIssue = False, issueText = None \<rparr>"
  by (auto simp: checkForDeliveryIssue_def)

lemma finalIssueText_page_raises:
  "elementIssueText page = None \<Longrightarrow> pageText page = Raises \<Longrightarrow> finalIssueText page = Raises"
  by (simp add: finalIssueText_def)

lemma elementIssueText_none:
  "elementText page = Raises \<or> elementText page = Returns None \<Longrightarrow> elementIssueText page = None"
  by (auto simp: elementIssueText_def)

text \<open>
  Claim C9 (fail-open classification). When the issue check of a located order ends in
  the catch branch of \<open>checkForDeliveryIssue\<close> (\<open>finalIssueText page = Raises\<close>), or neither
  the issue element nor the page text yields an issue text (\<open>Returns None\<close>), the check
  answers "no issue", and the \<open>OrderResult\<close> that \<open>searchAndClickOrderCodes\<close> records for
  the order has status \<open>success\<close> and no issue details.
\<close>

theorem indeterminate_classification_is_success:
  assumes "finalIssueText page = Raises \<or> finalIssueText page = Returns None"
  shows "hasIssue (checkForDeliveryIssue page) = False
         \<and> status (newOrderResult code accountUsername now (checkForDeliveryIssue page)) = success
         \<and> orderResults (globals (snd (rowsLoop targetCode accountUsername
                 [RowOpened code now page False] st)))
             = orderResults (globals st)
                 @ [\<lparr> orderCode = code,
                      account = (case accountUsername of
                                   None \<Rightarrow> ''unknown''
                                 | Some u \<Rightarrow> if u = [] then ''unknown'' else u),
                      status = success, timestamp = now, issueDetails = None \<rparr>]"
  using checkForDeliveryIssue_fail_open[OF assms]
  by (simp add: newOrderResult_def Let_def)

theorem indeterminate_classification_is_success_witness:
  "finalIssueText \<lparr> elementText = Raises, pageText = Raises, extractedText = Raises \<rparr> = Raises
   \<and> finalIssueText plainOrderPage = Returns None
   \<and> status (newOrderResult ''#A'' (Some ''u'') 0
         (checkForDeliveryIssue \<lparr> elementText = Raises, pageText = Raises, extractedText = Raises \<rparr>))
       = success
   \<and> status (newOrderResult ''#A'' (Some ''u'') 0 (checkForDeliveryIssue plainOrderPage)) = success"
proof -
  have a: "finalIssueText \<lparr> elementText = Raises, pageText = Raises, extractedText = Raises \<rparr> = Raises"
    by (simp add: finalIssueText_def elementIssueText_def)
  have b: "finalIssueText plainOrderPage = Returns None"
    by code_simp
  show ?thesis
    using a b
      indeterminate_classification_is_success[of
        "\<lparr> elementText = Raises, pageText = Raises, extractedText = Raises \<rparr>"
        "''#A''" "Some ''u''" 0]
      indeterminate_classification_is_success[of plainOrderPage "''#A''" "Some ''u''" 0]
    by simp
qed

section \<open>Properties of the code acquisition\<close>

lemma acquireLoop_events_attempts:
  "e \<in> set (snd (acquireLoop src m attempts st)) \<Longrightarrow>
     (\<exists>a r. a \<in> set attempts \<and> (e = CallGmailAPI a r \<or> e = CallPuppeteer a r \<or> e = WaitForRetry a))"
proof (induction src m attempts st arbitrary: e rule: acquireLoop.induct)
  case (1 src m code i j)
  then show ?case by simp
next
  case (2 src m attempt rest code i j)
  from "2.prems" show ?case
    apply (simp add: Let_def split: if_splits prod.splits)
    using "2.IH" apply (fastforce simp: Let_def)+
    done
qed

lemma acquireLoop_Cons_api:
  "canUseGmailAPI src \<Longrightarrow>
     snd (acquireLoop src m (attempt # rest) (code, i, j)) =
       (if truthy (gmailAPI src i) then [CallGmailAPI attempt (gmailAPI src i)]
        else if attempt < m then
          (if truthy (gmailPuppeteer src j) then
             [CallGmailAPI attempt (gmailAPI src i), CallPuppeteer attempt (gmailPuppeteer src j)]
           else
             [CallGmailAPI attempt (gmailAPI src i), CallPuppeteer attempt (gmailPuppeteer src j),
              WaitForRetry attempt]
               @ snd (acquireLoop src m rest (gmailPuppeteer src j, Suc i, Suc j)))
        else CallGmailAPI attempt (gmailAPI src i)
               # snd (acquireLoop src m rest (gmailAPI src i, Suc i, j)))"
  by (simp add: Let_def split: prod.splits)

lemma acquireLoop_fallback:
  assumes "canUseGmailAPI src" and "distinct attempts"
      and "CallGmailAPI a r \<in> set (snd (acquireLoop src m attempts st))" and "\<not> truthy r"
  shows "(\<exists>r'. CallPuppeteer a r' \<in> set (snd (acquireLoop src m attempts st))) \<longleftrightarrow> a < m"
  using assms(2,3)
proof (induction attempts arbitrary: st)
  case Nil
  obtain code i j where st: "st = (code, i, j)" by (cases st)
  from Nil show ?case by (simp add: st)
next
  case (Cons attempt rest)
  obtain code i j where st: "st = (code, i, j)" by (cases st)
  note ev = acquireLoop_Cons_api[OF assms(1), of m attempt rest code i j]
  have rest_other: "\<And>st' e. e \<in> set (snd (acquireLoop src m rest st')) \<Longrightarrow>
      e \<noteq> CallGmailAPI attempt r \<and> (\<forall>r'. e \<noteq> CallPuppeteer attempt r')"
  proof -
    fix st' e assume "e \<in> set (snd (acquireLoop src m rest st'))"
    from acquireLoop_events_attempts[OF this] Cons.prems(1) show
      "e \<noteq> CallGmailAPI attempt r \<and> (\<forall>r'. e \<noteq> CallPuppeteer attempt r')"
      by auto
  qed
  show ?case
  proof (cases "a = attempt")
    case True
    have mem: "CallGmailAPI attempt r \<in> set (snd (acquireLoop src m (attempt # rest) (code, i, j)))"
      using Cons.prems(2) True st by simp
    have r: "r = gmailAPI src i"
    proof (rule ccontr)
      assume "r \<noteq> gmailAPI src i"
      with mem rest_other show False unfolding ev by (auto split: if_splits)
    qed
    have nt: "\<not> truthy (gmailAPI src i)" using assms(4) r by simp
    show ?thesis
    proof (cases "attempt < m")
      case lt: True
      have "CallPuppeteer attempt (gmailPuppeteer src j)
              \<in> set (snd (acquireLoop src m (attempt # rest) (code, i, j)))"
        unfolding ev using nt lt by simp
      then show ?thesis unfolding st True using lt by blast
    next
      case ge: False
      have "\<And>r'. CallPuppeteer attempt r'
              \<notin> set (snd (acquireLoop src m (attempt # rest) (code, i, j)))"
        unfolding ev using nt ge rest_other by (simp, blast)
      then show ?thesis unfolding st True using ge by blast
    qed
  next
    case False
    have d: "distinct rest" using Cons.prems(1) by simp
    show ?thesis
    proof (cases "truthy (gmailAPI src i)")
      case True
      with Cons.prems(2) False show ?thesis unfolding st ev by simp
    next
      case nt: False
      show ?thesis
      proof (cases "attempt < m")
        case lt: True
        show ?thesis
        proof (cases "truthy (gmailPuppeteer src j)")
          case True
          with Cons.prems(2) False nt lt show ?thesis unfolding st ev by simp
        next
          case nt2: False
          let ?st' = "(gmailPuppeteer src j, Suc i, Suc j)"
          have mem: "CallGmailAPI a r \<in> set (snd (acquireLoop src m rest ?st'))"
            using Cons.prems(2) False nt lt nt2 unfolding st ev by simp
          have "(\<exists>r'. CallPuppeteer a r' \<in> set (snd (acquireLoop src m (attempt # rest) (code, i, j))))
                 \<longleftrightarrow> (\<exists>r'. CallPuppeteer a r' \<in> set (snd (acquireLoop src m rest ?st')))"
            unfolding ev using False nt lt nt2 by simp
          then show ?thesis unfolding st using Cons.IH[OF d mem] by blast
        qed
      next
        case ge: False
        let ?st' = "(gmailAPI src i, Suc i, j)"
        have mem: "CallGmailAPI a r \<in> set (snd (acquireLoop src m rest ?st'))"
          using Cons.prems(2) False nt ge unfolding st ev by simp
        have "(\<exists>r'. CallPuppeteer a r' \<in> set (snd (acquireLoop src m (attempt # rest) (code, i, j))))
               \<longleftrightarrow> (\<exists>r'. CallPuppeteer a r' \<in> set (snd (acquireLoop src m rest ?st')))"
          unfolding ev using False nt ge by simp
        then show ?thesis unfolding st using Cons.IH[OF d mem] by blast
      qed
    qed
  qed
qed

lemma acquireCode_first_fallback:
  assumes "canUseGmailAPI src" and "\<not> truthy (gmailAPI src 0)" and "truthy (gmailPuppeteer src 0)"
      and "maxCodeRetries src \<noteq> 1"
  shows "acquireCode src
           = (gmailPuppeteer src 0,
              [CallGmailAPI 1 (gmailAPI src 0), CallPuppeteer 1 (gmailPuppeteer src 0)])"
proof -
  have m: "1 < effectiveCodeRetries src" using assms(4) by (simp add: effectiveCodeRetries_def)
  have "[1 ..< Suc (effectiveCodeRetries src)] = 1 # [2 ..< Suc (effectiveCodeRetries src)]"
    using upt_conv_Cons[of 1 "Suc (effectiveCodeRetries src)"] m by (simp add: numeral_2_eq_2)
  then show ?thesis using assms(1,2,3) m by (simp add: acquireCode_def Let_def)
qed

text \<open>
  Claim C8, as amended. With the API source configured, in every acquisition attempt in
  which the API returns no code the inbox page is tried as a fallback in that same
  attempt, except in the last attempt (\<open>attempt = maxRetries\<close>), where the loop ends without
  trying it. In particular, with more than one attempt allowed, when the API returns no
  code and the inbox page then returns "482913" on its first call, and the page lets the
  code be entered and the login be verified, the flow submits "482913" after exactly
  these two calls and the login attempt is a success.
\<close>

theorem code_fallback_before_last_attempt:
  "(canUseGmailAPI src \<and> CallGmailAPI attempt r \<in> set (snd (acquireCode src)) \<and> \<not> truthy r
      \<longrightarrow> ((\<exists>r'. CallPuppeteer attempt r' \<in> set (snd (acquireCode src)))
             \<longleftrightarrow> attempt < effectiveCodeRetries src))
   \<and> (canUseGmailAPI src \<and> \<not> truthy (gmailAPI src 0) \<and> gmailPuppeteer src 0 = Some ''482913''
        \<and> maxCodeRetries src \<noteq> 1
        \<and> credentialError page = None \<and> challengeShown page \<and> \<not> challengeStepRaises page
        \<and> codeInputPresent page \<and> (loggedInIndicator page \<longrightarrow> indicatorFound page)
      \<longrightarrow> loginSuccess (performLogin True page src)
          \<and> submittedCode (performLogin True page src) = Some ''482913''
          \<and> codeCalls (performLogin True page src)
                = [CallGmailAPI 1 (gmailAPI src 0), CallPuppeteer 1 (Some ''482913'')])"
proof (intro conjI impI)
  assume a: "canUseGmailAPI src \<and> CallGmailAPI attempt r \<in> set (snd (acquireCode src)) \<and> \<not> truthy r"
  show "(\<exists>r'. CallPuppeteer attempt r' \<in> set (snd (acquireCode src)))
             \<longleftrightarrow> attempt < effectiveCodeRetries src"
    unfolding acquireCode_def
    by (rule acquireLoop_fallback[where r = r]) (use a in \<open>simp_all add: acquireCode_def\<close>)
next
  assume h: "canUseGmailAPI src \<and> \<not> truthy (gmailAPI src 0) \<and> gmailPuppeteer src 0 = Some ''482913''
        \<and> maxCodeRetries src \<noteq> 1
        \<and> credentialError page = None \<and> challengeShown page \<and> \<not> challengeStepRaises page
        \<and> codeInputPresent page \<and> (loggedInIndicator page \<longrightarrow> indicatorFound page)"
  have t: "truthy (gmailPuppeteer src 0)" using h by (simp add: truthy_def)
  have acq: "acquireCode src
           = (Some ''482913'', [CallGmailAPI 1 (gmailAPI src 0), CallPuppeteer 1 (Some ''482913'')])"
    using acquireCode_first_fallback[of src] h t by simp
  have res: "performLogin True page src
               = verifyLogin page (Some ''482913'')
                   [CallGmailAPI 1 (gmailAPI src 0), CallPuppeteer 1 (Some ''482913'')]"
    using h by (simp add: performLogin_def acq truthy_def)
  show "loginSuccess (performLogin True page src)"
    unfolding res using h by (auto simp: verifyLogin_def isLoggedIn_def)
  show "submittedCode (performLogin True page src) = Some ''482913''"
    unfolding res by (simp add: verifyLogin_def)
  show "codeCalls (performLogin True page src)
                = [CallGmailAPI 1 (gmailAPI src 0), CallPuppeteer 1 (Some ''482913'')]"
    unfolding res by (simp add: verifyLogin_def)
qed

lemma inboxLate_calls:
  "acquireCode inboxLate
     = (None, [CallGmailAPI 1 None, CallPuppeteer 1 None, WaitForRetry 1,
               CallGmailAPI 2 None, CallPuppeteer 2 None, WaitForRetry 2,
               CallGmailAPI 3 None])"
  by (simp add: acquireCode_def inboxLate_def effectiveCodeRetries_def truthy_def Let_def
        upt_rec[of 1] upt_rec[of 2] upt_rec[of 3] numeral_2_eq_2 numeral_3_eq_3)

theorem code_fallback_before_last_attempt_witness:
  "loginSuccess (performLogin True challengePage (apiSilent 0))
   \<and> submittedCode (performLogin True challengePage (apiSilent 0)) = Some ''482913''
   \<and> codeCalls (performLogin True challengePage (apiSilent 0))
       = [CallGmailAPI 1 None, CallPuppeteer 1 (Some ''482913'')]
   \<and> CallGmailAPI 2 None \<in> set (snd (acquireCode inboxLate))
   \<and> CallPuppeteer 2 None \<in> set (snd (acquireCode inboxLate))
   \<and> effectiveCodeRetries inboxLate = 3"
proof -
  have src: "canUseGmailAPI (apiSilent 0)" "\<not> truthy (gmailAPI (apiSilent 0) 0)"
    "gmailPuppeteer (apiSilent 0) 0 = Some ''482913''" "maxCodeRetries (apiSilent 0) \<noteq> 1"
    "gmailAPI (apiSilent 0) 0 = None"
    by (simp_all add: apiSilent_def truthy_def)
  have page: "credentialError challengePage = None" "challengeShown challengePage"
    "\<not> challengeStepRaises challengePage" "codeInputPresent challengePage"
    "indicatorFound challengePage"
    by (simp_all add: challengePage_def)
  have late: "canUseGmailAPI inboxLate" "CallGmailAPI 2 None \<in> set (snd (acquireCode inboxLate))"
    "\<not> truthy None" "effectiveCodeRetries inboxLate = 3"
    by (simp_all add: inboxLate_calls truthy_def) (simp_all add: inboxLate_def effectiveCodeRetries_def)
  have "\<exists>r'. CallPuppeteer 2 r' \<in> set (snd (acquireCode inboxLate))"
    using code_fallback_before_last_attempt[of inboxLate 2 None challengePage] late by simp
  then have p2: "CallPuppeteer 2 None \<in> set (snd (acquireCode inboxLate))"
    by (simp add: inboxLate_calls)
  show ?thesis
    using code_fallback_before_last_attempt[of "apiSilent 0" 1 None challengePage] src page late p2
    by simp
qed

text \<open>
  Counterexample to C8 as stated: with the default three attempts the API returns no code
  in attempt 3, the inbox page would return "482913" on its third call, but it is not
  called in attempt 3 and the login attempt fails; with one attempt allowed the inbox
  page is never called at all.
\<close>

theorem code_fallback_every_attempt_counterexample:
  "acquireCode inboxLate
     = (None, [CallGmailAPI 1 None, CallPuppeteer 1 None, WaitForRetry 1,
               CallGmailAPI 2 None, CallPuppeteer 2 None, WaitForRetry 2,
               CallGmailAPI 3 None])
   \<and> gmailPuppeteer inboxLate 2 = Some ''482913''
   \<and> loginSuccess (performLogin True challengePage inboxLate) = False
   \<and> acquireCode (apiSilent 1) = (None, [CallGmailAPI 1 None])
   \<and> loginSuccess (performLogin True challengePage (apiSilent 1)) = False"
proof -
  have a: "acquireCode (apiSilent 1) = (None, [CallGmailAPI 1 None])"
    by (simp add: acquireCode_def apiSilent_def effectiveCodeRetries_def truthy_def Let_def)
  have b: "loginSuccess (performLogin True challengePage inboxLate) = False"
    unfolding performLogin_def inboxLate_calls by (simp add: challengePage_def truthy_def)
  have c: "loginSuccess (performLogin True challengePage (apiSilent 1)) = False"
    unfolding performLogin_def a by (simp add: challengePage_def truthy_def)
  have d: "gmailPuppeteer inboxLate 2 = Some ''482913''" by (simp add: inboxLate_def)
  show ?thesis using a b c d inboxLate_calls by simp
qed

section \<open>Properties of the login retries\<close>

lemma ensureSignIn_no_login: "Login j \<notin> set (ensureSignIn nav)"
  by (cases nav) (simp_all add: ensureSignIn_def)

lemma afterLogoutEvents_set:
  "set (afterLogoutEvents env k) \<subseteq> {GotoSignIn, Wait 2000 3000}"
  by (cases "afterLogout env k") (auto simp: afterLogoutEvents_def Let_def)

lemma afterLogoutEvents_goto:
  "GotoSignIn \<in> set (afterLogoutEvents env k) \<longleftrightarrow> logoutRaises env k \<or> afterLogout env k \<noteq> OnSignIn"
  by (cases "afterLogout env k") (auto simp: afterLogoutEvents_def Let_def)

lemma cleanupBeforeRetry_no_login: "Login j \<notin> set (cleanupBeforeRetry env k)"
  using afterLogoutEvents_set[of env k] by (auto simp: cleanupBeforeRetry_def)

lemma loginAttempts_Cons:
  "snd (loginAttempts env m (k # rest)) =
     (if beforeAttempt env k = NavRaises then ensureSignIn NavRaises
      else ensureSignIn (beforeAttempt env k) @ cleanupBeforeRetry env k
             @ Login k
             # (if loginSucceeds env k then []
                else (if k < m then [Wait (3000 + k * 1000) (3000 + k * 1000)] else [])
                     @ snd (loginAttempts env m rest)))"
  by (simp split: prod.splits)

lemma loginAttempts_logins: "Login k \<in> set (snd (loginAttempts env m as)) \<Longrightarrow> k \<in> set as"
proof (induction as)
  case Nil
  then show ?case by simp
next
  case (Cons a as)
  from Cons.prems show ?case
    unfolding loginAttempts_Cons
    using Cons.IH ensureSignIn_no_login[of k] cleanupBeforeRetry_no_login[of k env a]
    by (auto split: if_splits)
qed

lemma loginAttempts_count:
  "length (filter isLogin (snd (loginAttempts env m as))) \<le> length as"
proof (induction as)
  case Nil
  then show ?case by simp
next
  case (Cons a as)
  have e: "filter isLogin (ensureSignIn nav) = []" for nav
    by (cases nav) (simp_all add: ensureSignIn_def)
  have c: "filter isLogin (cleanupBeforeRetry env a) = []"
    using afterLogoutEvents_set[of env a]
    by (auto simp: cleanupBeforeRetry_def filter_empty_conv)
  show ?case unfolding loginAttempts_Cons using Cons.IH by (simp add: e c)
qed

lemma loginAttempts_logout_before_retry:
  assumes "Login k \<in> set (snd (loginAttempts env m as))" and "1 < k" and "distinct as"
  shows "\<exists>pre post. snd (loginAttempts env m as)
           = pre @ Logout # afterLogoutEvents env k @ Login k # post"
  using assms(1,3)
proof (induction as)
  case Nil
  then show ?case by simp
next
  case (Cons a as)
  have ok: "beforeAttempt env a \<noteq> NavRaises"
    using Cons.prems(1) ensureSignIn_no_login[of k NavRaises] unfolding loginAttempts_Cons
    by (auto split: if_splits)
  show ?case
  proof (cases "k = a")
    case True
    have "snd (loginAttempts env m (a # as))
            = ensureSignIn (beforeAttempt env a) @ Logout # afterLogoutEvents env k @ Login k
                # (if loginSucceeds env a then []
                   else (if a < m then [Wait (3000 + a * 1000) (3000 + a * 1000)] else [])
                        @ snd (loginAttempts env m as))"
      unfolding loginAttempts_Cons using ok True assms(2) by (simp add: cleanupBeforeRetry_def)
    then show ?thesis by blast
  next
    case False
    have in_rest: "Login k \<in> set (snd (loginAttempts env m as))" and nf: "\<not> loginSucceeds env a"
      using Cons.prems(1) False ok ensureSignIn_no_login[of k] cleanupBeforeRetry_no_login[of k env a]
      unfolding loginAttempts_Cons by (auto split: if_splits)
    from Cons.IH[OF in_rest] Cons.prems(2) obtain pre post where
      r: "snd (loginAttempts env m as) = pre @ Logout # afterLogoutEvents env k @ Login k # post"
      by auto
    have "snd (loginAttempts env m (a # as))
            = (ensureSignIn (beforeAttempt env a) @ cleanupBeforeRetry env a
                @ Login a # (if a < m then [Wait (3000 + a * 1000) (3000 + a * 1000)] else []) @ pre)
              @ Logout # afterLogoutEvents env k @ Login k # post"
      unfolding loginAttempts_Cons using ok nf r by simp
    then show ?thesis by blast
  qed
qed

lemma loginAttempts_backoff:
  assumes "Login k \<in> set (snd (loginAttempts env m as))" and "\<not> loginSucceeds env k"
      and "k < m" and "distinct as"
  shows "\<exists>pre post. snd (loginAttempts env m as)
           = pre @ Login k # Wait (3000 + k * 1000) (3000 + k * 1000) # post"
  using assms(1,4)
proof (induction as)
  case Nil
  then show ?case by simp
next
  case (Cons a as)
  have ok: "beforeAttempt env a \<noteq> NavRaises"
    using Cons.prems(1) ensureSignIn_no_login[of k NavRaises] unfolding loginAttempts_Cons
    by (auto split: if_splits)
  show ?case
  proof (cases "k = a")
    case True
    have "snd (loginAttempts env m (a # as))
            = (ensureSignIn (beforeAttempt env a) @ cleanupBeforeRetry env a)
                @ Login k # Wait (3000 + k * 1000) (3000 + k * 1000)
                # snd (loginAttempts env m as)"
      unfolding loginAttempts_Cons using ok True assms(2,3) by simp
    then show ?thesis by blast
  next
    case False
    have in_rest: "Login k \<in> set (snd (loginAttempts env m as))" and nf: "\<not> loginSucceeds env a"
      using Cons.prems(1) False ok ensureSignIn_no_login[of k] cleanupBeforeRetry_no_login[of k env a]
      unfolding loginAttempts_Cons by (auto split: if_splits)
    from Cons.IH[OF in_rest] Cons.prems(2) obtain pre post where
      r: "snd (loginAttempts env m as)
            = pre @ Login k # Wait (3000 + k * 1000) (3000 + k * 1000) # post"
      by auto
    have "snd (loginAttempts env m (a # as))
            = (ensureSignIn (beforeAttempt env a) @ cleanupBeforeRetry env a
                @ Login a # (if a < m then [Wait (3000 + a * 1000) (3000 + a * 1000)] else []) @ pre)
              @ Login k # Wait (3000 + k * 1000) (3000 + k * 1000) # post"
      unfolding loginAttempts_Cons using ok nf r by simp
    then show ?thesis by blast
  qed
qed

lemma loginAttempts_exhausted:
  "\<forall>k \<in> set as. \<not> loginSucceeds env k \<and> beforeAttempt env k \<noteq> NavRaises \<Longrightarrow>
     fst (loginAttempts env m as) = LoginExhausted
     \<and> filter isLogin (snd (loginAttempts env m as)) = map Login as"
proof (induction as)
  case Nil
  then show ?case by simp
next
  case (Cons a as)
  have e: "filter isLogin (ensureSignIn nav) = []" for nav
    by (cases nav) (simp_all add: ensureSignIn_def)
  have c: "filter isLogin (cleanupBeforeRetry env a) = []"
    using afterLogoutEvents_set[of env a]
    by (auto simp: cleanupBeforeRetry_def filter_empty_conv)
  from Cons show ?case by (auto simp: e c split: prod.splits)
qed

subsection \<open>The account loop\<close>

lemma processAccount_events:
  "\<exists>evs. runEvents (processAccount st (username, env))
           = runEvents st @ AccountStart username # evs"
  by (auto simp: processAccount_def Let_def split: prod.splits AttemptsOutcome.splits)

lemma processAccounts_keeps_events:
  "e \<in> set (runEvents st) \<Longrightarrow> e \<in> set (runEvents (processAccounts st accounts))"
proof (induction accounts arbitrary: st)
  case Nil
  then show ?case by (simp add: processAccounts_def)
next
  case (Cons a accounts)
  obtain username env where a: "a = (username, env)" by (cases a)
  from processAccount_events[of st username env] Cons.prems
  have "e \<in> set (runEvents (processAccount st a))" unfolding a by auto
  from Cons.IH[OF this] show ?case by (simp add: processAccounts_def)
qed

lemma processAccounts_starts_every_account:
  "(username, env) \<in> set accounts \<Longrightarrow>
     AccountStart username \<in> set (runEvents (processAccounts st accounts))"
proof (induction accounts arbitrary: st)
  case Nil
  then show ?case by simp
next
  case (Cons a accounts)
  show ?case
  proof (cases "a = (username, env)")
    case True
    from processAccount_events[of st username env]
    have "AccountStart username \<in> set (runEvents (processAccount st a))" unfolding True by auto
    from processAccounts_keeps_events[OF this, of accounts] show ?thesis
      by (simp add: processAccounts_def)
  next
    case False
    with Cons.prems have "(username, env) \<in> set accounts" by simp
    from Cons.IH[OF this, of "processAccount st a"] show ?thesis by (simp add: processAccounts_def)
  qed
qed

lemma processAccount_exhausted:
  assumes "atAccountStart env \<noteq> NavRaises"
      and "fst (loginAttempts env MAX_LOGIN_ATTEMPTS [1 ..< Suc MAX_LOGIN_ATTEMPTS]) = LoginExhausted"
  shows "accountsWithLoginIssues (processAccount st (username, env))
           = accountsWithLoginIssues st @ [username]"
  using assms by (auto simp: processAccount_def Let_def split: prod.splits)

lemma attempts_list: "[1 ..< Suc MAX_LOGIN_ATTEMPTS] = [1, 2, 3, 4]"
  by (simp add: MAX_LOGIN_ATTEMPTS_def upt_rec[of 1] upt_rec[of 2] upt_rec[of 3] upt_rec[of 4]
        numeral_2_eq_2 numeral_3_eq_3 eval_nat_numeral)

text \<open>
  Claim C4, as amended. For every account the login is attempted at most 4 times. Every
  attempt after the first is preceded, with no other login in between, by a logout, and
  between that logout and the login the code only waits and navigates to the sign-in
  page; it navigates there exactly when the logout raised or the page is not already on
  the sign-in page after the logout. A failed attempt \<open>k < 4\<close> is followed at once by a wait
  of \<open>3000 + 1000 k\<close> ms. When all four attempts fail (and no navigation raises), the four
  logins were made, the account is appended to \<open>accountsWithLoginIssues\<close>, and every
  later account of the run is still started.
\<close>

theorem login_retry_bound_and_cleanup:
  "length (filter isLogin (snd (loginAttempts env MAX_LOGIN_ATTEMPTS [1 ..< Suc MAX_LOGIN_ATTEMPTS]))) \<le> 4
   \<and> (Login k \<in> set (snd (loginAttempts env MAX_LOGIN_ATTEMPTS [1 ..< Suc MAX_LOGIN_ATTEMPTS]))
        \<and> 1 < k \<longrightarrow>
        (\<exists>pre post. snd (loginAttempts env MAX_LOGIN_ATTEMPTS [1 ..< Suc MAX_LOGIN_ATTEMPTS])
             = pre @ Logout # afterLogoutEvents env k @ Login k # post)
        \<and> set (afterLogoutEvents env k) \<subseteq> {GotoSignIn, Wait 2000 3000}
        \<and> (GotoSignIn \<in> set (afterLogoutEvents env k)
             \<longleftrightarrow> logoutRaises env k \<or> afterLogout env k \<noteq> OnSignIn))
   \<and> (Login k \<in> set (snd (loginAttempts env MAX_LOGIN_ATTEMPTS [1 ..< Suc MAX_LOGIN_ATTEMPTS]))
        \<and> \<not> loginSucceeds env k \<and> k < 4 \<longrightarrow>
        (\<exists>pre post. snd (loginAttempts env MAX_LOGIN_ATTEMPTS [1 ..< Suc MAX_LOGIN_ATTEMPTS])
             = pre @ Login k # Wait (3000 + k * 1000) (3000 + k * 1000) # post))
   \<and> (atAccountStart env \<noteq> NavRaises
        \<and> (\<forall>j \<in> {1, 2, 3, 4}. \<not> loginSucceeds env j \<and> beforeAttempt env j \<noteq> NavRaises) \<longrightarrow>
        filter isLogin (snd (loginAttempts env MAX_LOGIN_ATTEMPTS [1 ..< Suc MAX_LOGIN_ATTEMPTS]))
          = [Login 1, Login 2, Login 3, Login 4]
        \<and> accountsWithLoginIssues (processAccount st (username, env))
            = accountsWithLoginIssues st @ [username]
        \<and> (\<forall>a \<in> set rest. AccountStart (fst a)
              \<in> set (runEvents (processAccounts st ((username, env) # rest)))))"
proof -
  let ?r = "loginAttempts env MAX_LOGIN_ATTEMPTS [1 ..< Suc MAX_LOGIN_ATTEMPTS]"
  have d: "distinct [1 ..< Suc MAX_LOGIN_ATTEMPTS]" by simp
  have m: "MAX_LOGIN_ATTEMPTS = 4" by (simp add: MAX_LOGIN_ATTEMPTS_def)
  have a: "length (filter isLogin (snd ?r)) \<le> 4"
    using loginAttempts_count[of env MAX_LOGIN_ATTEMPTS "[1 ..< Suc MAX_LOGIN_ATTEMPTS]"] m by simp
  have b: "Login k \<in> set (snd ?r) \<and> 1 < k \<longrightarrow>
        (\<exists>pre post. snd ?r = pre @ Logout # afterLogoutEvents env k @ Login k # post)"
    using loginAttempts_logout_before_retry[of k env MAX_LOGIN_ATTEMPTS "[1 ..< Suc MAX_LOGIN_ATTEMPTS]"] d
    by blast
  have c: "Login k \<in> set (snd ?r) \<and> \<not> loginSucceeds env k \<and> k < 4 \<longrightarrow>
        (\<exists>pre post. snd ?r = pre @ Login k # Wait (3000 + k * 1000) (3000 + k * 1000) # post)"
    using loginAttempts_backoff[of k env MAX_LOGIN_ATTEMPTS "[1 ..< Suc MAX_LOGIN_ATTEMPTS]"] d m
    by auto
  have e: "atAccountStart env \<noteq> NavRaises
        \<and> (\<forall>j \<in> {1, 2, 3, 4}. \<not> loginSucceeds env j \<and> beforeAttempt env j \<noteq> NavRaises) \<longrightarrow>
        filter isLogin (snd ?r) = [Login 1, Login 2, Login 3, Login 4]
        \<and> accountsWithLoginIssues (processAccount st (username, env))
            = accountsWithLoginIssues st @ [username]
        \<and> (\<forall>a \<in> set rest. AccountStart (fst a)
              \<in> set (runEvents (processAccounts st ((username, env) # rest))))"
  proof (intro impI, elim conjE)
    assume s: "atAccountStart env \<noteq> NavRaises"
      and f: "\<forall>j \<in> {1, 2, 3, 4}. \<not> loginSucceeds env j \<and> beforeAttempt env j \<noteq> NavRaises"
    have f': "\<forall>k \<in> set [1 ..< Suc MAX_LOGIN_ATTEMPTS]. \<not> loginSucceeds env k \<and> beforeAttempt env k \<noteq> NavRaises"
      using f unfolding attempts_list by simp
    note x = loginAttempts_exhausted[OF f', of MAX_LOGIN_ATTEMPTS]
    have 1: "filter isLogin (snd ?r) = [Login 1, Login 2, Login 3, Login 4]"
      using x unfolding attempts_list by simp
    have 2: "accountsWithLoginIssues (processAccount st (username, env))
            = accountsWithLoginIssues st @ [username]"
      using processAccount_exhausted[OF s] x by simp
    have 3: "\<forall>a \<in> set rest. AccountStart (fst a)
              \<in> set (runEvents (processAccounts st ((username, env) # rest)))"
    proof
      fix a assume "a \<in> set rest"
      then have "(fst a, snd a) \<in> set ((username, env) # rest)" by simp
      from processAccounts_starts_every_account[OF this, of st]
      show "AccountStart (fst a) \<in> set (runEvents (processAccounts st ((username, env) # rest)))" .
    qed
    show "filter isLogin (snd ?r) = [Login 1, Login 2, Login 3, Login 4]
        \<and> accountsWithLoginIssues (processAccount st (username, env))
            = accountsWithLoginIssues st @ [username]
        \<and> (\<forall>a \<in> set rest. AccountStart (fst a)
              \<in> set (runEvents (processAccounts st ((username, env) # rest))))"
      using 1 2 3 by simp
  qed
  show ?thesis
    using a b c e afterLogoutEvents_set[of env k] afterLogoutEvents_goto[of env k]
    by (intro conjI impI) blast+
qed

lemma neverIn_events:
  "loginAttempts neverIn MAX_LOGIN_ATTEMPTS [1 ..< Suc MAX_LOGIN_ATTEMPTS]
     = (LoginExhausted,
        [Login 1, Wait 4000 4000,
         Logout, Wait 2000 3000, GotoSignIn, Wait 2000 3000, Login 2, Wait 5000 5000,
         Logout, Wait 2000 3000, GotoSignIn, Wait 2000 3000, Login 3, Wait 6000 6000,
         Logout, Wait 2000 3000, GotoSignIn, Wait 2000 3000, Login 4])"
  unfolding attempts_list
  by (simp add: neverIn_def MAX_LOGIN_ATTEMPTS_def ensureSignIn_def cleanupBeforeRetry_def
        afterLogoutEvents_def Let_def)

lemma secondTry_events:
  "loginAttempts secondTry MAX_LOGIN_ATTEMPTS [1 ..< Suc MAX_LOGIN_ATTEMPTS]
     = (LoginOk 2, [Login 1, Wait 4000 4000, Logout, Wait 2000 3000, Login 2])"
  unfolding attempts_list
  by (simp add: secondTry_def MAX_LOGIN_ATTEMPTS_def ensureSignIn_def cleanupBeforeRetry_def
        afterLogoutEvents_def Let_def)

theorem login_retry_bound_and_cleanup_witness:
  "filter isLogin (snd (loginAttempts neverIn MAX_LOGIN_ATTEMPTS [1 ..< Suc MAX_LOGIN_ATTEMPTS]))
     = [Login 1, Login 2, Login 3, Login 4]
   \<and> accountsWithLoginIssues
         (processAccount \<lparr> accountsWithLoginIssues = [], runEvents = [] \<rparr> (''first'', neverIn))
       = [''first'']
   \<and> AccountStart ''second''
        \<in> set (runEvents (processAccounts \<lparr> accountsWithLoginIssues = [], runEvents = [] \<rparr>
                    [(''first'', neverIn), (''second'', secondTry)]))
   \<and> Login 2 \<in> set (snd (loginAttempts neverIn MAX_LOGIN_ATTEMPTS [1 ..< Suc MAX_LOGIN_ATTEMPTS]))
   \<and> GotoSignIn \<in> set (afterLogoutEvents neverIn 2)"
proof -
  have h: "atAccountStart neverIn \<noteq> NavRaises"
    "\<forall>j \<in> {1, 2, 3, 4}. \<not> loginSucceeds neverIn j \<and> beforeAttempt neverIn j \<noteq> NavRaises"
    "Login 2 \<in> set (snd (loginAttempts neverIn MAX_LOGIN_ATTEMPTS [1 ..< Suc MAX_LOGIN_ATTEMPTS]))"
    "afterLogout neverIn 2 \<noteq> OnSignIn"
    unfolding neverIn_events by (simp_all add: neverIn_def)
  show ?thesis
    using login_retry_bound_and_cleanup[of neverIn 2
        "\<lparr> accountsWithLoginIssues = [], runEvents = [] \<rparr>" "''first''" "[(''second'', secondTry)]"] h
    by simp
qed

text \<open>
  Counterexample to C4 as stated: the first attempt fails, the page is on the sign-in page
  after the logout, and the second attempt follows the logout without any navigation.
\<close>

theorem forced_renavigation_counterexample:
  "loginAttempts secondTry MAX_LOGIN_ATTEMPTS [1 ..< Suc MAX_LOGIN_ATTEMPTS]
     = (LoginOk 2, [Login 1, Wait 4000 4000, Logout, Wait 2000 3000, Login 2])
   \<and> GotoSignIn \<notin> set (snd (loginAttempts secondTry MAX_LOGIN_ATTEMPTS [1 ..< Suc MAX_LOGIN_ATTEMPTS]))"
  unfolding secondTry_events by simp

section \<open>Properties of the slot protection\<close>

lemma testIntegrated_completes_unprotects:
  "getBrowserProfile now ''default'' pool = (Some slot, pool1, evs) \<Longrightarrow>
     testIntegrated now RunCompletes pool
       = assignProtected (instanceNo slot) False (assignProtected (instanceNo slot) True pool1)"
  by (simp add: testIntegrated_def)

lemma testIntegrated_raises_keeps_mark:
  "getBrowserProfile now ''default'' pool = (Some slot, pool1, evs) \<Longrightarrow>
     testIntegrated now RunRaises pool = assignProtected (instanceNo slot) True pool1"
  by (simp add: testIntegrated_def)

text \<open>
  Claim C5 on the code: a run on the three-slot pool that raises after the slot was marked
  ends with the slot still protected, and a later sweep that finds it 20 s old against a
  threshold of 15 s leaves it checked out; a run that completes ends with the mark
  removed.
\<close>

theorem testIntegrated_error_keeps_protection:
  "map protected (used (testIntegrated 0 RunRaises (initPool exampleConfig))) = [Some True]
   \<and> map protected (used (testIntegrated 0 RunCompletes (initPool exampleConfig))) = [Some False]
   \<and> map protected (used (fst (forceCloseBrowsersOlderThan exampleConfig calmSweep 15
           (testIntegrated 0 RunRaises (initPool exampleConfig))))) = [Some True]"
  by code_simp

end
